theory Spec2Isabelle
  imports Main "HOL-Library.Multiset"
begin

section \<open>The delivery-drones environment of \<^verbatim>\<open>src/env.py\<close>\<close>

text \<open>
  A shallow embedding of \<^verbatim>\<open>Grid\<close> and of \<^verbatim>\<open>DeliveryDrones.step\<close>.
  Python objects are modelled by value: a \<^verbatim>\<open>Drone\<close> stored in an air cell is the record
  of its fields, and a mutation through a reference (\<^verbatim>\<open>drone.packet = ...\<close>) is a write
  of the updated record to the place that holds the drone. This agrees with the source
  whenever no \<^verbatim>\<open>Drone\<close> object sits in two cells at once, which is how
  \<^verbatim>\<open>reset\<close> builds the grids.
\<close>

subsection \<open>Objects\<close>

datatype Action = LEFT | DOWN | RIGHT | UP | STAY

text \<open>\<^verbatim>\<open>Action(v)\<close>: the member with value \<open>v\<close>; any other value raises ValueError.\<close>

definition Action_of :: "int \<Rightarrow> Action option" where
  "Action_of v =
     (if v = 0 then Some LEFT
      else if v = 1 then Some DOWN
      else if v = 2 then Some RIGHT
      else if v = 3 then Some UP
      else if v = 4 then Some STAY
      else None)"

datatype Packet = Packet (Packet_index: int)

datatype Dropzone = Dropzone (Dropzone_index: int)

record Drone =
  index :: int
  packet :: "Packet option"

text \<open>What a ground cell can hold (\<^verbatim>\<open>isinstance(tile, Packet)\<close>, \<^verbatim>\<open>isinstance(tile, Dropzone)\<close>).\<close>

datatype ground_object = GPacket Packet | GDropzone Dropzone

datatype error = ValueError | IndexError | AttributeError

subsection \<open>Grid\<close>

text \<open>
  \<^verbatim>\<open>Grid.grid\<close> is a NumPy object array of the given shape, filled with \<^verbatim>\<open>None\<close>: here the
  row-major list of its cells. The flat index of \<open>(y, x)\<close> is \<open>y * columns + x\<close>.
\<close>

record 'a Grid =
  shape :: "nat \<times> nat"
  grid :: "'a option list"

text \<open>\<^verbatim>\<open>Grid.__init__\<close>\<close>

definition Grid_init :: "nat \<times> nat \<Rightarrow> 'a Grid" where
  "Grid_init sh = \<lparr>shape = sh, grid = replicate (fst sh * snd sh) None\<rparr>"

definition ravel_multi_index :: "int \<times> int \<Rightarrow> nat \<times> nat \<Rightarrow> nat" where
  "ravel_multi_index p dims = nat (fst p) * snd dims + nat (snd p)"

definition unravel_index :: "nat \<Rightarrow> nat \<times> nat \<Rightarrow> int \<times> int" where
  "unravel_index i dims = (int (i div snd dims), int (i mod snd dims))"

text \<open>\<^verbatim>\<open>is_inside\<close>: \<^verbatim>\<open>np.ravel_multi_index(..., mode='raise')\<close> raises exactly when a
  coordinate is negative or not below its dimension.\<close>

definition is_inside :: "'a Grid \<Rightarrow> int \<times> int \<Rightarrow> bool" where
  "is_inside g p =
     (0 \<le> fst p \<and> fst p < int (fst (shape g)) \<and> 0 \<le> snd p \<and> snd p < int (snd (shape g)))"

text \<open>\<^verbatim>\<open>__getitem__\<close> and \<^verbatim>\<open>__setitem__\<close>, used by \<^verbatim>\<open>step\<close> at positions inside the grid only.\<close>

definition getitem :: "'a Grid \<Rightarrow> int \<times> int \<Rightarrow> 'a option" where
  "getitem g p = grid g ! ravel_multi_index p (shape g)"

definition setitem :: "'a Grid \<Rightarrow> int \<times> int \<Rightarrow> 'a option \<Rightarrow> 'a Grid" where
  "setitem g p v = g\<lparr>grid := (grid g)[ravel_multi_index p (shape g) := v]\<rparr>"

text \<open>
  \<^verbatim>\<open>get_objects(object_type, zip_results=True)\<close>: the objects of the grid with their
  positions, in the row-major order of \<^verbatim>\<open>np.nonzero\<close>. The cells of a grid are typed here,
  so the \<^verbatim>\<open>isinstance\<close> mask of the air grid (\<^verbatim>\<open>Drone\<close>) selects every occupied cell.
\<close>

definition get_objects :: "'a Grid \<Rightarrow> ('a \<times> (int \<times> int)) list" where
  "get_objects g =
     List.map_filter (\<lambda>i. map_option (\<lambda>obj. (obj, unravel_index i (shape g))) (grid g ! i))
       [0 ..< fst (shape g) * snd (shape g)]"

subsection \<open>NumPy's global generator\<close>

text \<open>
  \<^verbatim>\<open>Grid.spawn\<close> calls \<^verbatim>\<open>np.random.choice\<close>, which reads and advances the process-global
  generator. The generator is not code of the repository: its state is the sequence of the
  raw draws it will hand out, and a draw bounded by \<open>m\<close> is the next raw draw reduced to
  \<open>[0, m]\<close>. \<^verbatim>\<open>choice(a, size=k, replace=False)\<close> raises ValueError when \<open>k\<close> exceeds the
  population and otherwise returns the first \<open>k\<close> entries of \<^verbatim>\<open>permutation(len(a))\<close> applied to
  \<open>a\<close>; \<^verbatim>\<open>permutation\<close> shuffles \<^verbatim>\<open>arange(n)\<close> from the last index down, exchanging index
  \<open>i\<close> with a drawn index in \<open>[0, i]\<close>.
\<close>

type_synonym rng = "nat \<Rightarrow> nat"

definition random_interval :: "nat \<Rightarrow> rng \<Rightarrow> nat \<times> rng" where
  "random_interval m r = (r 0 mod Suc m, \<lambda>n. r (Suc n))"

fun shuffle :: "nat \<Rightarrow> nat list \<Rightarrow> rng \<Rightarrow> nat list \<times> rng" where
  "shuffle 0 xs r = (xs, r)"
| "shuffle (Suc i) xs r =
     (case random_interval (Suc i) r of
        (j, r') \<Rightarrow> shuffle i (xs[Suc i := xs ! j, j := xs ! Suc i]) r')"

definition permutation :: "nat \<Rightarrow> rng \<Rightarrow> nat list \<times> rng" where
  "permutation n r = shuffle (n - 1) [0 ..< n] r"

definition choice :: "nat list \<Rightarrow> nat \<Rightarrow> rng \<Rightarrow> error + (nat list \<times> rng)" where
  "choice a k r =
     (if length a < k then Inl ValueError
      else case permutation (length a) r of
             (idx, r') \<Rightarrow> Inr (map (\<lambda>i. a ! i) (take k idx), r'))"

subsection \<open>Grid.spawn\<close>

text \<open>\<^verbatim>\<open>np.flatnonzero(self.grid == None)\<close>: the flat indices of the empty cells of this grid.\<close>

definition flatnonzero_None :: "'a Grid \<Rightarrow> nat list" where
  "flatnonzero_None g = filter (\<lambda>i. grid g ! i = None) [0 ..< fst (shape g) * snd (shape g)]"

text \<open>\<^verbatim>\<open>self.grid[idxs] = objects\<close>: the i-th object goes to the i-th position.\<close>

fun assign :: "'a Grid \<Rightarrow> (int \<times> int) list \<Rightarrow> 'a list \<Rightarrow> 'a Grid" where
  "assign g (p # ps) (obj # objs) = assign (setitem g p (Some obj)) ps objs"
| "assign g _ _ = g"

definition spawn :: "'a Grid \<Rightarrow> 'a list \<Rightarrow> rng \<Rightarrow> error + ('a Grid \<times> (int \<times> int) list \<times> rng)" where
  "spawn g objects r =
     (case choice (flatnonzero_None g) (length objects) r of
        Inl e \<Rightarrow> Inl e
      | Inr (flat_idxs, r') \<Rightarrow>
          (let idxs = map (\<lambda>i. unravel_index i (shape g)) flat_idxs
           in Inr (assign g idxs objects, idxs, r')))"

subsection \<open>DeliveryDrones.step\<close>

record DeliveryDrones =
  air :: "Drone Grid"
  ground :: "ground_object Grid"

text \<open>The local variables of \<^verbatim>\<open>step\<close>, next to the two grids of \<^verbatim>\<open>self\<close>.
  \<^verbatim>\<open>new_positions\<close> is a \<^verbatim>\<open>defaultdict(list)\<close>, iterated in the order its keys were first
  inserted: an association list.\<close>

record tick = DeliveryDrones +
  rewards :: "int \<rightharpoonup> int"
  new_positions :: "((int \<times> int) \<times> Drone list) list"
  air_respawns :: "Drone list"
  ground_respawns :: "ground_object list"

text \<open>\<^verbatim>\<open>new_positions[k].append(v)\<close>\<close>

fun dd_append :: "('k \<times> 'v list) list \<Rightarrow> 'k \<Rightarrow> 'v \<Rightarrow> ('k \<times> 'v list) list" where
  "dd_append [] k v = [(k, [v])]"
| "dd_append ((k', vs) # m) k v =
     (if k' = k then (k', vs @ [v]) # m else (k', vs) # dd_append m k v)"

text \<open>A \<^verbatim>\<open>for\<close> loop whose body may raise: the first error ends it.\<close>

fun for_each :: "('a \<Rightarrow> 's \<Rightarrow> error + 's) \<Rightarrow> 'a list \<Rightarrow> 's \<Rightarrow> error + 's" where
  "for_each body [] s = Inr s"
| "for_each body (x # xs) s =
     (case body x s of Inl e \<Rightarrow> Inl e | Inr s' \<Rightarrow> for_each body xs s')"

text \<open>Lines 117--127: the action of a drone (STAY when it has none) and where it leads.\<close>

definition action_for :: "(int \<rightharpoonup> int) \<Rightarrow> Drone \<Rightarrow> error + Action" where
  "action_for actions drone =
     (case actions (index drone) of
        None \<Rightarrow> Inr STAY
      | Some v \<Rightarrow> (case Action_of v of None \<Rightarrow> Inl ValueError | Some a \<Rightarrow> Inr a))"

fun new_position_of :: "Action \<Rightarrow> int \<times> int \<Rightarrow> int \<times> int" where
  "new_position_of LEFT (y, x) = (y, x - 1)"
| "new_position_of DOWN (y, x) = (y + 1, x)"
| "new_position_of RIGHT (y, x) = (y, x + 1)"
| "new_position_of UP (y, x) = (y - 1, x)"
| "new_position_of STAY (y, x) = (y, x)"

definition new_position :: "(int \<rightharpoonup> int) \<Rightarrow> Drone \<Rightarrow> int \<times> int \<Rightarrow> error + int \<times> int" where
  "new_position actions drone position =
     (case action_for actions drone of
        Inl e \<Rightarrow> Inl e
      | Inr action \<Rightarrow> Inr (new_position_of action position))"

text \<open>The packets a list of drones holds (\<^verbatim>\<open>[drone.packet for drone in drones if
  drone.packet is not None]\<close>).\<close>

definition packets_of :: "Drone list \<Rightarrow> ground_object list" where
  "packets_of drones = List.map_filter (\<lambda>drone. map_option GPacket (packet drone)) drones"

text \<open>Lines 112--142, the body of the first loop: the drone leaves the air; a move inside the
  grid is recorded, a move outside is a crash.\<close>

definition navigate :: "(int \<rightharpoonup> int) \<Rightarrow> Drone \<times> (int \<times> int) \<Rightarrow> tick \<Rightarrow> error + tick" where
  "navigate actions dp t =
     (case new_position actions (fst dp) (snd dp) of
        Inl e \<Rightarrow> Inl e
      | Inr q \<Rightarrow>
          if is_inside (air t) q
          then Inr (t\<lparr>air := setitem (air t) (snd dp) None,
                       new_positions := dd_append (new_positions t) q (fst dp)\<rparr>)
          else Inr (t\<lparr>air := setitem (air t) (snd dp) None,
                       rewards := (rewards t)(index (fst dp) \<mapsto> - 1),
                       air_respawns := air_respawns t @ [(fst dp)\<lparr>packet := None\<rparr>],
                       ground_respawns := ground_respawns t @ packets_of [fst dp]\<rparr>))"

text \<open>Lines 147--156: every drone of a group of two or more crashes.\<close>

definition collide :: "Drone list \<Rightarrow> tick \<Rightarrow> tick" where
  "collide drones t =
     t\<lparr>rewards := fold (\<lambda>drone rw. rw(index drone \<mapsto> - 1)) drones (rewards t),
       air_respawns := air_respawns t @ map (\<lambda>drone. drone\<lparr>packet := None\<rparr>) drones,
       ground_respawns := ground_respawns t @ packets_of drones\<rparr>"

text \<open>Lines 158--187: the only drone of its group lands and meets the ground cell. The drone
  is written to the air cell first and changed through the reference afterwards; by value,
  the changed drone is what the cell holds.\<close>

definition land :: "int \<times> int \<Rightarrow> Drone \<Rightarrow> tick \<Rightarrow> tick" where
  "land position drone t =
     (case getitem (ground t) position of
        Some (GPacket p) \<Rightarrow>
          (case packet drone of
             Some q \<Rightarrow>
               t\<lparr>air := setitem (air t) position (Some (drone\<lparr>packet := Some p\<rparr>)),
                 ground := setitem (ground t) position (Some (GPacket q))\<rparr>
           | None \<Rightarrow>
               t\<lparr>air := setitem (air t) position (Some (drone\<lparr>packet := Some p\<rparr>)),
                 ground := setitem (ground t) position None\<rparr>)
      | Some (GDropzone dropzone) \<Rightarrow>
          (case packet drone of
             Some q \<Rightarrow>
               if Packet_index q = Dropzone_index dropzone
               then t\<lparr>air := setitem (air t) position (Some (drone\<lparr>packet := None\<rparr>)),
                      ground := setitem (ground t) position None,
                      rewards := (rewards t)(index drone \<mapsto> 1),
                      ground_respawns := ground_respawns t @ [GPacket q, GDropzone dropzone]\<rparr>
               else t\<lparr>air := setitem (air t) position (Some drone)\<rparr>
           | None \<Rightarrow> t\<lparr>air := setitem (air t) position (Some drone)\<rparr>)
      | None \<Rightarrow> t\<lparr>air := setitem (air t) position (Some drone)\<rparr>)"

text \<open>Lines 145--187, the body of the second loop. \<^verbatim>\<open>drones[0]\<close> of an empty group would
  raise IndexError.\<close>

definition resolve :: "(int \<times> int) \<times> Drone list \<Rightarrow> tick \<Rightarrow> error + tick" where
  "resolve entry t =
     (case entry of (position, drones) \<Rightarrow>
        if length drones > 1 then Inr (collide drones t)
        else (case drones of [] \<Rightarrow> Inl IndexError | drone # _ \<Rightarrow> Inr (land position drone t)))"

text \<open>Lines 105--187: \<^verbatim>\<open>step\<close> up to the comment \<^verbatim>\<open># Respawn objects\<close>.\<close>

definition initial_tick :: "DeliveryDrones \<Rightarrow> (int \<rightharpoonup> int) \<Rightarrow> tick" where
  "initial_tick self actions =
     DeliveryDrones.extend self
       \<lparr>rewards = (\<lambda>i. map_option (\<lambda>_. 0) (actions i)),
        new_positions = [], air_respawns = [], ground_respawns = []\<rparr>"

definition move_drones :: "DeliveryDrones \<Rightarrow> (int \<rightharpoonup> int) \<Rightarrow> error + tick" where
  "move_drones self actions =
     (case for_each (navigate actions) (get_objects (air self)) (initial_tick self actions) of
        Inl e \<Rightarrow> Inl e
      | Inr t1 \<Rightarrow> for_each resolve (new_positions t1) t1)"

text \<open>\<^verbatim>\<open>_pick_packets_after_respawn\<close>: a respawned drone takes the packet under it. Reading
  \<^verbatim>\<open>.packet\<close> of an empty air cell would raise AttributeError.\<close>

definition pick_packet :: "int \<times> int \<Rightarrow> 'a DeliveryDrones_scheme \<Rightarrow> error + 'a DeliveryDrones_scheme" where
  "pick_packet p s =
     (case getitem (ground s) p of
        Some (GPacket pk) \<Rightarrow>
          (case getitem (air s) p of
             None \<Rightarrow> Inl AttributeError
           | Some drone \<Rightarrow>
               Inr (s\<lparr>air := setitem (air s) p (Some (drone\<lparr>packet := Some pk\<rparr>)),
                      ground := setitem (ground s) p None\<rparr>))
      | _ \<Rightarrow> Inr s)"

definition pick_packets_after_respawn ::
  "(int \<times> int) list \<Rightarrow> 'a DeliveryDrones_scheme \<Rightarrow> error + 'a DeliveryDrones_scheme" where
  "pick_packets_after_respawn positions s = for_each pick_packet positions s"

record info =
  info_air_respawns :: "Drone list"
  info_ground_respawns :: "ground_object list"

text \<open>What \<^verbatim>\<open>step\<close> returns: \<^verbatim>\<open>(self._get_grids(), rewards, dones, info)\<close>.\<close>

record step_result =
  grids :: DeliveryDrones
  out_rewards :: "int \<rightharpoonup> int"
  out_dones :: "int \<rightharpoonup> bool"
  out_info :: info

text \<open>Lines 189--200. The list \<^verbatim>\<open>air_respawns\<close> that \<^verbatim>\<open>info\<close> returns holds the very
  \<^verbatim>\<open>Drone\<close> objects that were spawned, so it shows them as they are after the pickup: they
  are read back from the cells they were written to. The generator is process-global state:
  \<^verbatim>\<open>step\<close> takes it and returns it advanced.\<close>

definition respawn :: "tick \<Rightarrow> (int \<rightharpoonup> int) \<Rightarrow> rng \<Rightarrow> error + step_result \<times> rng" where
  "respawn t actions r =
     (case spawn (ground t) (ground_respawns t) r of
        Inl e \<Rightarrow> Inl e
      | Inr ground_spawned \<Rightarrow>
          (case spawn (air t) (air_respawns t) (snd (snd ground_spawned)) of
             Inl e \<Rightarrow> Inl e
           | Inr air_spawned \<Rightarrow>
               (case pick_packets_after_respawn (fst (snd air_spawned))
                       \<lparr>air = fst air_spawned, ground = fst ground_spawned\<rparr> of
                  Inl e \<Rightarrow> Inl e
                | Inr self' \<Rightarrow>
                    Inr (\<lparr>grids = self',
                          out_rewards = rewards t,
                          out_dones =
                            fold (\<lambda>drone dones. dones(index drone \<mapsto> True)) (air_respawns t)
                              (\<lambda>i. map_option (\<lambda>_. False) (actions i)),
                          out_info =
                            \<lparr>info_air_respawns =
                               List.map_filter (getitem (air self')) (fst (snd air_spawned)),
                             info_ground_respawns = ground_respawns t\<rparr>\<rparr>,
                         snd (snd air_spawned)))))"

definition step :: "DeliveryDrones \<Rightarrow> (int \<rightharpoonup> int) \<Rightarrow> rng \<Rightarrow> error + step_result \<times> rng" where
  "step self actions r =
     (case move_drones self actions of
        Inl e \<Rightarrow> Inl e
      | Inr t \<Rightarrow> respawn t actions r)"

section \<open>Vocabulary of the properties\<close>

text \<open>
  Definitions used to state and prove the properties; none of them is code of the
  repository.
\<close>

definition wf_grid :: "'a Grid \<Rightarrow> bool" where
  "wf_grid g = (length (grid g) = fst (shape g) * snd (shape g))"

definition empty_cells :: "'a Grid \<Rightarrow> (int \<times> int) set" where
  "empty_cells g = {p. is_inside g p \<and> getitem g p = None}"

definition cell_mset :: "'a option \<Rightarrow> 'a multiset" where
  "cell_mset c = (case c of None \<Rightarrow> {#} | Some x \<Rightarrow> {#x#})"

definition objects_of :: "'a Grid \<Rightarrow> 'a multiset" where
  "objects_of g = (\<Sum>c\<leftarrow>grid g. cell_mset c)"

definition heading :: "(int \<rightharpoonup> int) \<Rightarrow> 'a Grid \<Rightarrow> Drone \<times> (int \<times> int) \<Rightarrow> (int \<times> int) option" where
  "heading actions g dp =
     (case new_position actions (fst dp) (snd dp) of
        Inl e \<Rightarrow> None
      | Inr q \<Rightarrow> if is_inside g q then Some q else None)"

definition survivors :: "(int \<rightharpoonup> int) \<Rightarrow> 'a Grid \<Rightarrow> (Drone \<times> (int \<times> int)) list \<Rightarrow> (Drone \<times> (int \<times> int)) list" where
  "survivors actions g dps = List.map_filter (\<lambda>dp. map_option (\<lambda>q. (fst dp, q)) (heading actions g dp)) dps"

definition crashed :: "(int \<rightharpoonup> int) \<Rightarrow> 'a Grid \<Rightarrow> (Drone \<times> (int \<times> int)) list \<Rightarrow> Drone list" where
  "crashed actions g dps = map fst (filter (\<lambda>dp. heading actions g dp = None) dps)"

definition grouped :: "(Drone \<times> (int \<times> int)) list \<Rightarrow> ((int \<times> int) \<times> Drone list) list \<Rightarrow> ((int \<times> int) \<times> Drone list) list" where
  "grouped svs np = fold (\<lambda>dq m. dd_append m (snd dq) (fst dq)) svs np"

definition group :: "('k \<times> 'v list) list \<Rightarrow> 'k \<Rightarrow> 'v list" where
  "group m k = (case map_of m k of None \<Rightarrow> [] | Some vs \<Rightarrow> vs)"

definition total :: "('a \<Rightarrow> 'b::comm_monoid_add) \<Rightarrow> 'a Grid \<Rightarrow> 'b" where
  "total w g = (\<Sum>c\<leftarrow>grid g. case c of None \<Rightarrow> 0 | Some x \<Rightarrow> w x)"

definition grids_ok :: "'a DeliveryDrones_scheme \<Rightarrow> bool" where
  "grids_ok s = (wf_grid (air s) \<and> wf_grid (ground s) \<and> shape (ground s) = shape (air s))"

definition on_ground :: "ground_object \<Rightarrow> nat" where
  "on_ground obj = (case obj of GPacket p \<Rightarrow> 1 | GDropzone z \<Rightarrow> 0)"

definition carried :: "Drone \<Rightarrow> nat" where
  "carried drone = (case packet drone of None \<Rightarrow> 0 | Some p \<Rightarrow> 1)"

definition landed :: "int \<times> int \<Rightarrow> Drone \<Rightarrow> 'a DeliveryDrones_scheme \<Rightarrow> Drone" where
  "landed q d t =
     (case getitem (ground t) q of
        Some (GPacket p) \<Rightarrow> d\<lparr>packet := Some p\<rparr>
      | Some (GDropzone z) \<Rightarrow>
          (case packet d of
             Some pk \<Rightarrow> if Packet_index pk = Dropzone_index z then d\<lparr>packet := None\<rparr> else d
           | None \<Rightarrow> d)
      | None \<Rightarrow> d)"

definition entries_ok :: "((int \<times> int) \<times> Drone list) list \<Rightarrow> tick \<Rightarrow> bool" where
  "entries_ok es t =
     (grids_ok t \<and> distinct (map fst es) \<and>
      (\<forall>e \<in> set es. is_inside (air t) (fst e) \<and> getitem (air t) (fst e) = None))"

definition respawned_ok :: "(int \<times> int) list \<Rightarrow> 'a DeliveryDrones_scheme \<Rightarrow> bool" where
  "respawned_ok ps s =
     (grids_ok s \<and> distinct ps \<and>
      (\<forall>p \<in> set ps. is_inside (air s) p \<and> (\<exists>d. getitem (air s) p = Some d \<and> packet d = None)))"

definition count_air :: "'a DeliveryDrones_scheme \<Rightarrow> int \<Rightarrow> nat" where
  "count_air s i = length (filter (\<lambda>c. map_option index c = Some i) (grid (air s)))"

definition occupied :: "'a DeliveryDrones_scheme \<Rightarrow> nat" where
  "occupied s = length (filter (\<lambda>c. c \<noteq> None) (grid (air s)))"

definition one_cell_each :: "nat \<Rightarrow> 'a DeliveryDrones_scheme \<Rightarrow> bool" where
  "one_cell_each D s = ((\<forall>i \<in> set [1 .. int D]. count_air s i = 1) \<and> occupied s = D)"

definition count_packets :: "'a DeliveryDrones_scheme \<Rightarrow> nat" where
  "count_packets s =
     length (filter (\<lambda>c. case c of Some (GPacket p) \<Rightarrow> True | _ \<Rightarrow> False) (grid (ground s)))
     + length (filter (\<lambda>c. case c of Some drone \<Rightarrow> packet drone \<noteq> None | None \<Rightarrow> False) (grid (air s)))"

definition drones_of :: "((int \<times> int) \<times> Drone list) list \<Rightarrow> Drone list" where
  "drones_of es = concat (map snd es)"

definition deliveries :: "ground_object Grid \<Rightarrow> int \<times> int \<Rightarrow> Drone \<Rightarrow> ground_object list" where
  "deliveries g q d =
     (case getitem g q of
        Some (GDropzone z) \<Rightarrow>
          (case packet d of
             Some pk \<Rightarrow> if Packet_index pk = Dropzone_index z then [GPacket pk, GDropzone z] else []
           | None \<Rightarrow> [])
      | _ \<Rightarrow> [])"

definition scheduled :: "ground_object Grid \<Rightarrow> (int \<times> int) \<times> Drone list \<Rightarrow> ground_object list" where
  "scheduled g e =
     (if length (snd e) > 1 then packets_of (snd e)
      else case snd e of [] \<Rightarrow> [] | d # _ \<Rightarrow> deliveries g (fst e) d)"

definition colliding :: "((int \<times> int) \<times> Drone list) list \<Rightarrow> Drone list" where
  "colliding es = concat (map snd (filter (\<lambda>e. length (snd e) > 1) es))"

definition distinct_indices :: "'a DeliveryDrones_scheme \<Rightarrow> bool" where
  "distinct_indices s = distinct (map (\<lambda>dp. index (fst dp)) (get_objects (air s)))"

definition after_pick :: "ground_object option \<Rightarrow> Drone \<Rightarrow> Drone" where
  "after_pick c d = (case c of Some (GPacket pk) \<Rightarrow> d\<lparr>packet := Some pk\<rparr> | _ \<Rightarrow> d)"

definition ground_after_pick :: "ground_object option \<Rightarrow> ground_object option" where
  "ground_after_pick c = (case c of Some (GPacket pk) \<Rightarrow> None | _ \<Rightarrow> c)"

definition survives_at ::
  "'a DeliveryDrones_scheme \<Rightarrow> (int \<rightharpoonup> int) \<Rightarrow> Drone \<Rightarrow> int \<times> int \<Rightarrow> int \<times> int \<Rightarrow> bool" where
  "survives_at s actions d p q =
     ((d, p) \<in> set (get_objects (air s)) \<and> new_position actions d p = Inr q \<and> is_inside (air s) q \<and>
      (\<forall>dp \<in> set (get_objects (air s)). new_position actions (fst dp) (snd dp) = Inr q \<longrightarrow> dp = (d, p)))"




text \<open>
  Example states. Two drones on the 7 by 7 grid that \<^verbatim>\<open>DeliveryDrones(2)\<close> builds: drone 1
  at \<open>(3, 1)\<close> carries packet 1 and flies right, drone 2 at \<open>(3, 3)\<close> flies left, so both head
  for \<open>(3, 2)\<close>; packet 2 lies on the ground.
\<close>

definition collision_state :: DeliveryDrones where
  "collision_state =
     \<lparr>air = setitem (setitem (Grid_init (7, 7)) (3, 1) (Some \<lparr>index = 1, packet = Some (Packet 1)\<rparr>))
              (3, 3) (Some \<lparr>index = 2, packet = None\<rparr>),
      ground = setitem (Grid_init (7, 7)) (5, 5) (Some (GPacket (Packet 2)))\<rparr>"

definition collision_actions :: "int \<rightharpoonup> int" where
  "collision_actions = [1 \<mapsto> 2, 2 \<mapsto> 0]"

definition mismatch_state :: DeliveryDrones where
  "mismatch_state =
     \<lparr>air = setitem (setitem (Grid_init (7, 7)) (3, 3) (Some \<lparr>index = 1, packet = Some (Packet 1)\<rparr>))
              (0, 0) (Some \<lparr>index = 2, packet = None\<rparr>),
      ground = setitem (setitem (setitem (Grid_init (7, 7)) (3, 4) (Some (GDropzone (Dropzone 2))))
                 (6, 6) (Some (GDropzone (Dropzone 1)))) (5, 5) (Some (GPacket (Packet 2)))\<rparr>"

definition delivery_state :: DeliveryDrones where
  "delivery_state =
     \<lparr>air = setitem (Grid_init (5, 5)) (3, 3) (Some \<lparr>index = 1, packet = Some (Packet 1)\<rparr>),
      ground = setitem (Grid_init (5, 5)) (3, 4) (Some (GDropzone (Dropzone 1)))\<rparr>"

definition pickup_state :: DeliveryDrones where
  "pickup_state =
     \<lparr>air = setitem (Grid_init (5, 5)) (3, 3) (Some \<lparr>index = 1, packet = None\<rparr>),
      ground = setitem (setitem (Grid_init (5, 5)) (3, 4) (Some (GPacket (Packet 1))))
                 (1, 1) (Some (GDropzone (Dropzone 1)))\<rparr>"

definition swap_packets_state :: DeliveryDrones where
  "swap_packets_state =
     \<lparr>air = setitem (setitem (Grid_init (7, 7)) (3, 3) (Some \<lparr>index = 1, packet = Some (Packet 1)\<rparr>))
              (0, 0) (Some \<lparr>index = 2, packet = None\<rparr>),
      ground = setitem (setitem (setitem (Grid_init (7, 7)) (3, 4) (Some (GPacket (Packet 2))))
                 (6, 6) (Some (GDropzone (Dropzone 1)))) (6, 5) (Some (GDropzone (Dropzone 2)))\<rparr>"

definition fly_right :: "int \<rightharpoonup> int" where
  "fly_right = [1 \<mapsto> 2]"

definition fly_right_and_stay :: "int \<rightharpoonup> int" where
  "fly_right_and_stay = [1 \<mapsto> 2, 2 \<mapsto> 4]"

definition collision_tick :: tick where
  "collision_tick = projr (move_drones collision_state collision_actions)"

definition collision_ground_spawn :: "ground_object Grid \<times> (int \<times> int) list \<times> rng" where
  "collision_ground_spawn =
     projr (spawn (ground collision_tick) (ground_respawns collision_tick) (\<lambda>n. 0))"

definition collision_air_spawn :: "Drone Grid \<times> (int \<times> int) list \<times> rng" where
  "collision_air_spawn =
     projr (spawn (air collision_tick) (air_respawns collision_tick) (snd (snd collision_ground_spawn)))"

definition redelivery_state :: DeliveryDrones where
  "redelivery_state =
     \<lparr>air = setitem (Grid_init (5, 5)) (0, 0) (Some \<lparr>index = 1, packet = Some (Packet 1)\<rparr>),
      ground = setitem (Grid_init (5, 5)) (0, 1) (Some (GDropzone (Dropzone 1)))\<rparr>"

definition refill_state :: DeliveryDrones where
  "refill_state =
     \<lparr>air = setitem (setitem (Grid_init (5, 5)) (0, 0) (Some \<lparr>index = 1, packet = None\<rparr>))
              (4, 4) (Some \<lparr>index = 2, packet = Some (Packet 2)\<rparr>),
      ground = setitem (setitem (setitem (Grid_init (5, 5)) (0, 1) (Some (GPacket (Packet 1))))
                 (4, 0) (Some (GDropzone (Dropzone 1)))) (4, 1) (Some (GDropzone (Dropzone 2)))\<rparr>"

definition both_fly_right :: "int \<rightharpoonup> int" where
  "both_fly_right = [1 \<mapsto> 2, 2 \<mapsto> 2]"





section \<open>Lemmas\<close>

lemma ravel_unravel:
  "i < fst dims * snd dims \<Longrightarrow> ravel_multi_index (unravel_index i dims) dims = i"
  by (simp add: ravel_multi_index_def unravel_index_def)

lemma unravel_inside:
  assumes "i < fst (shape g) * snd (shape g)"
  shows "is_inside g (unravel_index i (shape g))"
proof -
  have w: "0 < snd (shape g)" using assms by (cases "snd (shape g)") auto
  have "i div snd (shape g) < fst (shape g)"
    using assms w by (simp add: less_mult_imp_div_less)
  with w show ?thesis by (simp add: is_inside_def unravel_index_def)
qed

lemma ravel_less:
  assumes "is_inside g p"
  shows "ravel_multi_index p (shape g) < fst (shape g) * snd (shape g)"
proof -
  obtain y x where p: "p = (int y, int x)" and y: "y < fst (shape g)" and x: "x < snd (shape g)"
    using assms unfolding is_inside_def
    by (metis nat_int nat_less_iff prod.collapse zless_nat_conj nat_0_le)
  have "y * snd (shape g) + x < (Suc y) * snd (shape g)" using x by simp
  also have "\<dots> \<le> fst (shape g) * snd (shape g)" using y by (intro mult_le_mono1) simp
  finally show ?thesis by (simp add: p ravel_multi_index_def)
qed

lemma unravel_ravel:
  assumes "is_inside g p"
  shows "unravel_index (ravel_multi_index p (shape g)) (shape g) = p"
proof -
  obtain y x where p: "p = (int y, int x)" and y: "y < fst (shape g)" and x: "x < snd (shape g)"
    using assms unfolding is_inside_def
    by (metis nat_int nat_less_iff prod.collapse zless_nat_conj nat_0_le)
  show ?thesis using x by (simp add: p ravel_multi_index_def unravel_index_def)
qed

lemma ravel_inj:
  "is_inside g p \<Longrightarrow> is_inside g q \<Longrightarrow>
   ravel_multi_index p (shape g) = ravel_multi_index q (shape g) \<Longrightarrow> p = q"
  by (metis unravel_ravel)

lemma shape_setitem [simp]: "shape (setitem g p v) = shape g"
  by (simp add: setitem_def)

lemma is_inside_setitem [simp]: "is_inside (setitem g p v) q = is_inside g q"
  by (simp add: is_inside_def)

lemma wf_grid_setitem [simp]: "wf_grid (setitem g p v) = wf_grid g"
  by (simp add: wf_grid_def setitem_def)

lemma getitem_setitem_same:
  "wf_grid g \<Longrightarrow> is_inside g p \<Longrightarrow> getitem (setitem g p v) p = v"
  using ravel_less [of g p] by (simp add: getitem_def setitem_def wf_grid_def)

lemma getitem_setitem_other:
  "is_inside g p \<Longrightarrow> is_inside g q \<Longrightarrow> q \<noteq> p \<Longrightarrow> getitem (setitem g p v) q = getitem g q"
proof -
  assume a: "is_inside g p" "is_inside g q" "q \<noteq> p"
  have "ravel_multi_index p (shape g) \<noteq> ravel_multi_index q (shape g)"
    using ravel_inj [OF a(1) a(2)] a(3) by blast
  then show ?thesis by (simp add: getitem_def setitem_def)
qed

lemma shuffle_mset: "i < length xs \<Longrightarrow> mset (fst (shuffle i xs r)) = mset xs"
proof (induction i arbitrary: xs r)
  case 0
  then show ?case by simp
next
  case (Suc i)
  let ?j = "r 0 mod Suc (Suc i)"
  let ?ys = "xs[Suc i := xs ! ?j, ?j := xs ! Suc i]"
  have j: "?j < length xs" using Suc.prems by (meson Suc_leI le_trans mod_less_divisor not_less zero_less_Suc not_le)
  have "mset ?ys = mset xs" using mset_swap [OF j Suc.prems] .
  moreover have "i < length ?ys" using Suc.prems by simp
  ultimately show ?case using Suc.IH [of ?ys] by (simp add: random_interval_def)
qed

lemma permutation_mset: "mset (fst (permutation n r)) = mset [0 ..< n]"
proof (cases n)
  case 0
  then show ?thesis by (simp add: permutation_def)
next
  case (Suc m)
  then show ?thesis using shuffle_mset [of m "[0 ..< n]" r] by (simp add: permutation_def)
qed

lemma permutation_length: "length (fst (permutation n r)) = n"
  using permutation_mset [of n r] by (metis length_upt mset_eq_length minus_nat.diff_0)

lemma permutation_distinct: "distinct (fst (permutation n r))"
  using permutation_mset [of n r] by (metis distinct_upt mset_eq_imp_distinct_iff)

lemma permutation_set: "set (fst (permutation n r)) = {0 ..< n}"
  using permutation_mset [of n r] by (metis mset_eq_setD set_upt)



lemma choice_result:
  assumes "choice a k r = Inr (idx, r')"
  shows "length idx = k" and "set idx \<subseteq> set a" and "distinct a \<Longrightarrow> distinct idx"
proof -
  let ?p = "fst (permutation (length a) r)"
  from assms have k: "k \<le> length a" and idx: "idx = map (\<lambda>i. a ! i) (take k ?p)"
    by (auto simp: choice_def split: prod.splits if_splits)
  show "length idx = k" using k by (simp add: idx permutation_length)
  have sub: "set (take k ?p) \<subseteq> {0 ..< length a}"
    using permutation_set [of "length a" r] set_take_subset [of k ?p] by blast
  then show "set idx \<subseteq> set a" by (auto simp: idx)
  assume d: "distinct a"
  have "inj_on (\<lambda>i. a ! i) {0 ..< length a}"
    using d by (auto simp: inj_on_def nth_eq_iff_index_eq)
  then have "inj_on (\<lambda>i. a ! i) (set (take k ?p))" using sub by (rule inj_on_subset)
  moreover have "distinct (take k ?p)" using permutation_distinct by (rule distinct_take)
  ultimately show "distinct idx" by (simp add: idx distinct_map)
qed

lemma flatnonzero_distinct: "distinct (flatnonzero_None g)"
  by (simp add: flatnonzero_None_def)

lemma flatnonzero_set:
  "set (flatnonzero_None g) = {i. i < fst (shape g) * snd (shape g) \<and> grid g ! i = None}"
  by (auto simp: flatnonzero_None_def)

lemma unravel_flatnonzero:
  "(\<lambda>i. unravel_index i (shape g)) ` set (flatnonzero_None g) = empty_cells g"
proof (rule set_eqI, rule iffI)
  fix p assume "p \<in> (\<lambda>i. unravel_index i (shape g)) ` set (flatnonzero_None g)"
  then obtain i where i: "i < fst (shape g) * snd (shape g)" "grid g ! i = None"
    and p: "p = unravel_index i (shape g)" by (auto simp: flatnonzero_set)
  have "ravel_multi_index p (shape g) = i"
    using ravel_unravel [of i "shape g"] i(1) by (simp add: p)
  then show "p \<in> empty_cells g"
    using unravel_inside [OF i(1)] i(2) by (simp add: empty_cells_def p getitem_def)
next
  fix p assume "p \<in> empty_cells g"
  then have ins: "is_inside g p" and e: "getitem g p = None" by (auto simp: empty_cells_def)
  have "ravel_multi_index p (shape g) \<in> set (flatnonzero_None g)"
    using ravel_less [OF ins] e by (simp add: flatnonzero_set getitem_def)
  then show "p \<in> (\<lambda>i. unravel_index i (shape g)) ` set (flatnonzero_None g)"
    using unravel_ravel [OF ins] by (metis imageI)
qed

lemma unravel_inj_on:
  "inj_on (\<lambda>i. unravel_index i (shape g)) {i. i < fst (shape g) * snd (shape g)}"
proof (rule inj_onI)
  fix i j
  assume i: "i \<in> {i. i < fst (shape g) * snd (shape g)}"
    and j: "j \<in> {i. i < fst (shape g) * snd (shape g)}"
    and eq: "unravel_index i (shape g) = unravel_index j (shape g)"
  have "i = ravel_multi_index (unravel_index i (shape g)) (shape g)"
    using ravel_unravel [of i "shape g"] i by simp
  also have "\<dots> = ravel_multi_index (unravel_index j (shape g)) (shape g)"
    by (simp only: eq)
  also have "\<dots> = j"
    using ravel_unravel [of j "shape g"] j by simp
  finally show "i = j" .
qed


lemma shape_assign [simp]: "shape (assign g ps objs) = shape g"
  by (induction g ps objs rule: assign.induct) simp_all

lemma wf_grid_assign [simp]: "wf_grid (assign g ps objs) = wf_grid g"
  by (induction g ps objs rule: assign.induct) simp_all

lemma is_inside_assign [simp]: "is_inside (assign g ps objs) q = is_inside g q"
  by (simp add: is_inside_def)

lemma getitem_assign_other:
  "\<forall>p \<in> set ps. is_inside g p \<Longrightarrow> is_inside g q \<Longrightarrow> q \<notin> set ps \<Longrightarrow>
   getitem (assign g ps objs) q = getitem g q"
proof (induction g ps objs rule: assign.induct)
  case (1 g p ps obj objs)
  then show ?case by (simp add: getitem_setitem_other)
qed simp_all

lemma getitem_assign_nth:
  "wf_grid g \<Longrightarrow> \<forall>p \<in> set ps. is_inside g p \<Longrightarrow> distinct ps \<Longrightarrow> length ps = length objs \<Longrightarrow>
   i < length ps \<Longrightarrow> getitem (assign g ps objs) (ps ! i) = Some (objs ! i)"
proof (induction g ps objs arbitrary: i rule: assign.induct)
  case (1 g p ps obj objs)
  show ?case
  proof (cases i)
    case 0
    have "getitem (assign (setitem g p (Some obj)) ps objs) p = getitem (setitem g p (Some obj)) p"
      using "1.prems" by (intro getitem_assign_other) simp_all
    then show ?thesis using "1.prems" 0 by (simp add: getitem_setitem_same)
  next
    case (Suc j)
    then show ?thesis using "1.prems" "1.IH" [of j] by simp
  qed
qed simp_all



lemma spawn_result:
  assumes "spawn g objects r = Inr (g', idxs, r')"
  shows "length idxs = length objects" and "distinct idxs" and "set idxs \<subseteq> empty_cells g"
    and "g' = assign g idxs objects"
proof -
  from assms obtain flat where c: "choice (flatnonzero_None g) (length objects) r = Inr (flat, r')"
    and idxs: "idxs = map (\<lambda>i. unravel_index i (shape g)) flat"
    and g': "g' = assign g idxs objects"
    by (auto simp: spawn_def Let_def split: sum.splits prod.splits)
  note cr = choice_result [OF c]
  show "length idxs = length objects" using cr(1) by (simp add: idxs)
  show "g' = assign g idxs objects" by (rule g')
  have sub: "set flat \<subseteq> {i. i < fst (shape g) * snd (shape g)}"
    using cr(2) by (auto simp: flatnonzero_set)
  have "inj_on (\<lambda>i. unravel_index i (shape g)) (set flat)"
    using unravel_inj_on sub by (rule inj_on_subset)
  then show "distinct idxs" using cr(3) [OF flatnonzero_distinct] by (simp add: idxs distinct_map)
  show "set idxs \<subseteq> empty_cells g"
    using cr(2) unravel_flatnonzero [of g] by (auto simp: idxs)
qed

lemma spawn_getitem:
  assumes "wf_grid g" and "spawn g objects r = Inr (g', idxs, r')"
  shows "i < length objects \<Longrightarrow> getitem g' (idxs ! i) = Some (objects ! i)"
    and "is_inside g q \<Longrightarrow> q \<notin> set idxs \<Longrightarrow> getitem g' q = getitem g q"
    and "shape g' = shape g" and "wf_grid g'"
proof -
  note sr = spawn_result [OF assms(2)]
  have ins: "\<forall>p \<in> set idxs. is_inside g p" using sr(3) by (auto simp: empty_cells_def)
  show "i < length objects \<Longrightarrow> getitem g' (idxs ! i) = Some (objects ! i)"
    using getitem_assign_nth [OF assms(1) ins sr(2) sr(1), of i] sr(1) by (simp add: sr(4))
  show "is_inside g q \<Longrightarrow> q \<notin> set idxs \<Longrightarrow> getitem g' q = getitem g q"
    using getitem_assign_other [OF ins, of q objects] by (simp add: sr(4))
  show "shape g' = shape g" by (simp add: sr(4))
  show "wf_grid g'" using assms(1) by (simp add: sr(4))
qed

lemma cell_mset_simps [simp]: "cell_mset None = {#}" "cell_mset (Some x) = {#x#}"
  by (simp_all add: cell_mset_def)

lemma sum_list_cell_update:
  "i < length xs \<Longrightarrow>
   (\<Sum>c\<leftarrow>xs[i := v]. cell_mset c) + cell_mset (xs ! i) = (\<Sum>c\<leftarrow>xs. cell_mset c) + cell_mset v"
proof (induction xs arbitrary: i)
  case Nil
  then show ?case by simp
next
  case (Cons x xs)
  then show ?case by (cases i) (simp_all add: ac_simps)
qed

lemma objects_of_setitem:
  assumes "wf_grid g" and "is_inside g p"
  shows "objects_of (setitem g p v) + cell_mset (getitem g p) = objects_of g + cell_mset v"
proof -
  have "ravel_multi_index p (shape g) < length (grid g)"
    using ravel_less [OF assms(2)] assms(1) by (simp add: wf_grid_def)
  then show ?thesis
    using sum_list_cell_update [of "ravel_multi_index p (shape g)" "grid g" v]
    by (simp add: objects_of_def setitem_def getitem_def)
qed

lemma objects_of_setitem_empty:
  "wf_grid g \<Longrightarrow> is_inside g p \<Longrightarrow> getitem g p = None \<Longrightarrow>
   objects_of (setitem g p (Some x)) = add_mset x (objects_of g)"
  using objects_of_setitem [of g p "Some x"] by simp

lemma objects_of_assign:
  "wf_grid g \<Longrightarrow> distinct ps \<Longrightarrow> \<forall>p \<in> set ps. is_inside g p \<and> getitem g p = None \<Longrightarrow>
   length ps = length objs \<Longrightarrow> objects_of (assign g ps objs) = objects_of g + mset objs"
proof (induction g ps objs rule: assign.induct)
  case (1 g p ps obj objs)
  have "\<forall>q \<in> set ps. is_inside (setitem g p (Some obj)) q \<and> getitem (setitem g p (Some obj)) q = None"
  proof
    fix q assume q: "q \<in> set ps"
    then have "q \<noteq> p" "is_inside g q" "is_inside g p" "getitem g q = None"
      using "1.prems" by auto
    then show "is_inside (setitem g p (Some obj)) q \<and> getitem (setitem g p (Some obj)) q = None"
      by (simp add: getitem_setitem_other)
  qed
  then have "objects_of (assign (setitem g p (Some obj)) ps objs)
      = objects_of (setitem g p (Some obj)) + mset objs"
    using "1.prems" by (intro "1.IH") simp_all
  then show ?case using "1.prems" by (simp add: objects_of_setitem_empty)
qed simp_all

lemma spawn_objects_of:
  assumes "wf_grid g" and "spawn g objects r = Inr (g', idxs, r')"
  shows "objects_of g' = objects_of g + mset objects"
proof -
  note sr = spawn_result [OF assms(2)]
  have "\<forall>p \<in> set idxs. is_inside g p \<and> getitem g p = None"
    using sr(3) by (auto simp: empty_cells_def)
  then show ?thesis using objects_of_assign [OF assms(1) sr(2) _ sr(1)] by (simp add: sr(4))
qed

lemma map_filter_Cons:
  "List.map_filter f (x # xs) = (case f x of None \<Rightarrow> List.map_filter f xs | Some y \<Rightarrow> y # List.map_filter f xs)"
  by (simp add: List.map_filter_def split: option.splits)

lemma map_filter_Nil: "List.map_filter f [] = []"
  by (simp add: List.map_filter_def)

lemma map_filter_append: "List.map_filter f (xs @ ys) = List.map_filter f xs @ List.map_filter f ys"
  by (simp add: List.map_filter_def)

lemma set_map_filter: "set (List.map_filter f xs) = {y. \<exists>x \<in> set xs. f x = Some y}"
  by (induction xs) (auto simp: map_filter_Cons map_filter_Nil split: option.splits)

lemma get_objects_set:
  "set (get_objects g) =
     {(d, p). \<exists>i < fst (shape g) * snd (shape g). grid g ! i = Some d \<and> p = unravel_index i (shape g)}"
  by (auto simp: get_objects_def set_map_filter)

lemma get_objects_iff:
  "(d, p) \<in> set (get_objects g) \<longleftrightarrow> is_inside g p \<and> getitem g p = Some d"
proof
  assume "(d, p) \<in> set (get_objects g)"
  then obtain i where i: "i < fst (shape g) * snd (shape g)" "grid g ! i = Some d"
    "p = unravel_index i (shape g)" by (auto simp: get_objects_set)
  then show "is_inside g p \<and> getitem g p = Some d"
    using unravel_inside [OF i(1)] ravel_unravel [of i "shape g"] by (simp add: getitem_def)
next
  assume a: "is_inside g p \<and> getitem g p = Some d"
  then show "(d, p) \<in> set (get_objects g)"
    using ravel_less [of g p] unravel_ravel [of g p]
    by (auto simp: get_objects_set getitem_def intro!: exI [of _ "ravel_multi_index p (shape g)"])
qed

lemma map_snd_map_filter_distinct:
  "distinct xs \<Longrightarrow> inj_on h (set xs) \<Longrightarrow>
   distinct (map snd (List.map_filter (\<lambda>i. map_option (\<lambda>obj. (obj, h i)) (c i)) xs))"
proof (induction xs)
  case Nil
  then show ?case by (simp add: map_filter_Nil)
next
  case (Cons x xs)
  then show ?case
    by (auto simp: map_filter_Cons set_map_filter split: option.splits)
qed

lemma get_objects_distinct: "distinct (map snd (get_objects g))"
  unfolding get_objects_def
  by (rule map_snd_map_filter_distinct) (use unravel_inj_on [of g] in \<open>auto intro: inj_on_subset\<close>)

lemma mset_fst_map_filter:
  "mset (map fst (List.map_filter (\<lambda>i. map_option (\<lambda>obj. (obj, h i)) (c i)) xs))
     = (\<Sum>i\<leftarrow>xs. cell_mset (c i))"
  by (induction xs) (auto simp: map_filter_Cons map_filter_Nil split: option.splits)

lemma get_objects_mset:
  assumes "wf_grid g"
  shows "mset (map fst (get_objects g)) = objects_of g"
proof -
  have "map (\<lambda>i. grid g ! i) [0 ..< fst (shape g) * snd (shape g)] = grid g"
    using assms map_nth [of "grid g"] by (simp add: wf_grid_def)
  then have "map cell_mset (map (\<lambda>i. grid g ! i) [0 ..< fst (shape g) * snd (shape g)])
      = map cell_mset (grid g)" by simp
  then have "(\<Sum>i\<leftarrow>[0 ..< fst (shape g) * snd (shape g)]. cell_mset (grid g ! i)) = objects_of g"
    unfolding objects_of_def by (simp add: comp_def)
  then show ?thesis unfolding get_objects_def by (simp only: mset_fst_map_filter)
qed

lemma heading_setitem [simp]: "heading actions (setitem g p v) = heading actions g"
  by (simp add: heading_def fun_eq_iff split: sum.splits)

lemma survivors_setitem [simp]: "survivors actions (setitem g p v) = survivors actions g"
  by (simp add: survivors_def fun_eq_iff)

lemma crashed_setitem [simp]: "crashed actions (setitem g p v) = crashed actions g"
  by (simp add: crashed_def fun_eq_iff)

lemma survivors_Cons:
  "survivors actions g (dp # dps) =
     (case heading actions g dp of None \<Rightarrow> survivors actions g dps
      | Some q \<Rightarrow> (fst dp, q) # survivors actions g dps)"
  by (simp add: survivors_def map_filter_Cons split: option.splits)

lemma crashed_Cons:
  "crashed actions g (dp # dps) =
     (case heading actions g dp of None \<Rightarrow> fst dp # crashed actions g dps
      | Some q \<Rightarrow> crashed actions g dps)"
  by (simp add: crashed_def split: option.splits)

lemma navigate_cases:
  assumes "navigate actions dp t = Inr t'"
  obtains (inside) q where "new_position actions (fst dp) (snd dp) = Inr q" "heading actions (air t) dp = Some q"
      "t' = t\<lparr>air := setitem (air t) (snd dp) None,
              new_positions := dd_append (new_positions t) q (fst dp)\<rparr>"
  | (outside) q where "new_position actions (fst dp) (snd dp) = Inr q" "heading actions (air t) dp = None"
      "t' = t\<lparr>air := setitem (air t) (snd dp) None,
              rewards := (rewards t)(index (fst dp) \<mapsto> - 1),
              air_respawns := air_respawns t @ [(fst dp)\<lparr>packet := None\<rparr>],
              ground_respawns := ground_respawns t @ packets_of [fst dp]\<rparr>"
  using assms by (auto simp: navigate_def heading_def split: sum.splits if_splits)

lemma navigate_loop:
  "for_each (navigate actions) dps t = Inr t' \<Longrightarrow>
     ground t' = ground t \<and> shape (air t') = shape (air t) \<and> wf_grid (air t') = wf_grid (air t) \<and>
     new_positions t' = grouped (survivors actions (air t) dps) (new_positions t) \<and>
     air_respawns t' = air_respawns t @ map (\<lambda>d. d\<lparr>packet := None\<rparr>) (crashed actions (air t) dps) \<and>
     ground_respawns t' = ground_respawns t @ packets_of (crashed actions (air t) dps) \<and>
     rewards t' = fold (\<lambda>d rw. rw(index d \<mapsto> - 1)) (crashed actions (air t) dps) (rewards t) \<and>
     (\<forall>dp \<in> set dps. \<exists>q. new_position actions (fst dp) (snd dp) = Inr q)"
proof (induction dps arbitrary: t)
  case Nil
  then show ?case by (simp add: survivors_def crashed_def grouped_def map_filter_Nil packets_of_def)
next
  case (Cons dp dps)
  from Cons.prems obtain t1 where n: "navigate actions dp t = Inr t1"
    and rest: "for_each (navigate actions) dps t1 = Inr t'"
    by (auto split: sum.splits)
  note IH = Cons.IH [OF rest]
  from n show ?case
  proof (cases rule: navigate_cases)
    case (inside q)
    show ?thesis
      using IH inside(1,2)
      by (simp add: survivors_Cons crashed_Cons grouped_def inside(3))
  next
    case (outside q)
    show ?thesis
      using IH outside(1,2)
      by (simp add: survivors_Cons crashed_Cons grouped_def outside(3) packets_of_def
          map_filter_Cons map_filter_Nil split: option.splits)
  qed
qed

lemma navigate_loop_air:
  "for_each (navigate actions) dps t = Inr t' \<Longrightarrow> wf_grid (air t) \<Longrightarrow>
   \<forall>dp \<in> set dps. is_inside (air t) (snd dp) \<Longrightarrow> is_inside (air t) p \<Longrightarrow>
   getitem (air t') p = (if p \<in> snd ` set dps then None else getitem (air t) p)"
proof (induction dps arbitrary: t)
  case Nil
  then show ?case by simp
next
  case (Cons dp dps)
  from Cons.prems(1) obtain t1 where n: "navigate actions dp t = Inr t1"
    and rest: "for_each (navigate actions) dps t1 = Inr t'"
    by (auto split: sum.splits)
  have a1: "air t1 = setitem (air t) (snd dp) None"
    using n by (cases rule: navigate_cases) simp_all
  have IH: "getitem (air t') p = (if p \<in> snd ` set dps then None else getitem (air t1) p)"
    using Cons.prems by (intro Cons.IH [OF rest]) (simp_all add: a1)
  show ?case
  proof (cases "p = snd dp")
    case True
    then show ?thesis using IH Cons.prems by (simp add: a1 getitem_setitem_same)
  next
    case False
    then show ?thesis using IH Cons.prems by (simp add: a1 getitem_setitem_other)
  qed
qed

lemma map_of_dd_append:
  "map_of (dd_append m k v) k' = (if k' = k then Some (group m k @ [v]) else map_of m k')"
  by (induction m k v rule: dd_append.induct) (auto simp: group_def)

lemma keys_dd_append: "fst ` set (dd_append m k v) = insert k (fst ` set m)"
  by (induction m k v rule: dd_append.induct) auto

lemma distinct_dd_append: "distinct (map fst m) \<Longrightarrow> distinct (map fst (dd_append m k v))"
proof (induction m k v rule: dd_append.induct)
  case (1 k v)
  then show ?case by simp
next
  case (2 k' vs m k v)
  then show ?case using keys_dd_append [of m k v] by (auto simp: image_iff)
qed

lemma mset_concat_dd_append:
  "mset (concat (map snd (dd_append m k v))) = add_mset v (mset (concat (map snd m)))"
  by (induction m k v rule: dd_append.induct) auto

lemma keys_grouped: "fst ` set (grouped svs m) = snd ` set svs \<union> fst ` set m"
  unfolding grouped_def by (induction svs arbitrary: m) (auto simp: keys_dd_append)

lemma distinct_grouped: "distinct (map fst m) \<Longrightarrow> distinct (map fst (grouped svs m))"
  unfolding grouped_def by (induction svs arbitrary: m) (auto simp: distinct_dd_append)

lemma mset_concat_grouped:
  "mset (concat (map snd (grouped svs m))) = mset (map fst svs) + mset (concat (map snd m))"
  unfolding grouped_def by (induction svs arbitrary: m) (auto simp: mset_concat_dd_append)

lemma group_dd_append:
  "group (dd_append m k v) k' = (if k' = k then group m k @ [v] else group m k')"
  by (simp add: group_def map_of_dd_append)

lemma group_grouped:
  "group (grouped svs m) q = group m q @ map fst (filter (\<lambda>dq. snd dq = q) svs)"
  unfolding grouped_def by (induction svs arbitrary: m) (auto simp: group_dd_append)

lemma group_Nil [simp]: "group [] q = []"
  by (simp add: group_def)

lemma grouped_entry:
  assumes "(q, ds) \<in> set (grouped svs [])"
  shows "ds = map fst (filter (\<lambda>dq. snd dq = q) svs)" and "q \<in> snd ` set svs"
proof -
  have "distinct (map fst (grouped svs []))" by (simp add: distinct_grouped)
  then have "map_of (grouped svs []) q = Some ds" using assms by simp
  then have "group (grouped svs []) q = ds" by (simp add: group_def)
  then show "ds = map fst (filter (\<lambda>dq. snd dq = q) svs)" by (simp add: group_grouped)
  show "q \<in> snd ` set svs" using assms keys_grouped [of svs "[]"] by force
qed

lemma grouped_entry_nonempty:
  assumes "(q, ds) \<in> set (grouped svs [])"
  shows "ds \<noteq> []"
proof -
  from grouped_entry [OF assms] obtain dq where "dq \<in> set svs" "snd dq = q"
    and ds: "ds = map fst (filter (\<lambda>dq. snd dq = q) svs)" by auto
  then have "dq \<in> set (filter (\<lambda>dq. snd dq = q) svs)" by simp
  then show ?thesis unfolding ds by (metis empty_iff list.set(1) map_is_Nil_conv)
qed

lemma grouped_has_entry:
  assumes "(d, q) \<in> set svs"
  shows "(q, map fst (filter (\<lambda>dq. snd dq = q) svs)) \<in> set (grouped svs [])"
proof -
  have "q \<in> fst ` set (grouped svs [])" using assms keys_grouped [of svs "[]"] by force
  then obtain ds where e: "(q, ds) \<in> set (grouped svs [])" by auto
  then show ?thesis using grouped_entry(1) [OF e] by simp
qed

lemma sum_list_update_weight:
  fixes f :: "'a \<Rightarrow> 'b::comm_monoid_add"
  shows "i < length xs \<Longrightarrow> (\<Sum>c\<leftarrow>xs[i := v]. f c) + f (xs ! i) = (\<Sum>c\<leftarrow>xs. f c) + f v"
proof (induction xs arbitrary: i)
  case Nil
  then show ?case by simp
next
  case (Cons x xs)
  show ?case
  proof (cases i)
    case 0
    then show ?thesis by (simp add: ac_simps)
  next
    case (Suc j)
    then have "(\<Sum>c\<leftarrow>xs[j := v]. f c) + f (xs ! j) = (\<Sum>c\<leftarrow>xs. f c) + f v"
      using Cons.IH [of j] Cons.prems by simp
    then have "f x + ((\<Sum>c\<leftarrow>xs[j := v]. f c) + f (xs ! j)) = f x + ((\<Sum>c\<leftarrow>xs. f c) + f v)"
      by simp
    then show ?thesis using Suc by (simp add: ac_simps)
  qed
qed

lemma total_setitem:
  assumes "wf_grid g" and "is_inside g p"
  shows "total w (setitem g p v) + (case getitem g p of None \<Rightarrow> 0 | Some x \<Rightarrow> w x)
       = total w g + (case v of None \<Rightarrow> 0 | Some x \<Rightarrow> w x)"
proof -
  have "ravel_multi_index p (shape g) < length (grid g)"
    using ravel_less [OF assms(2)] assms(1) by (simp add: wf_grid_def)
  then show ?thesis
    using sum_list_update_weight [of "ravel_multi_index p (shape g)" "grid g"
        "\<lambda>c. case c of None \<Rightarrow> 0 | Some x \<Rightarrow> w x" v]
    by (simp add: total_def setitem_def getitem_def)
qed

lemma total_objects_of: "total w g = (\<Sum>x\<in>#objects_of g. w x)"
proof -
  have "(\<Sum>c\<leftarrow>xs. case c of None \<Rightarrow> 0 | Some x \<Rightarrow> w x) = (\<Sum>x\<in>#(\<Sum>c\<leftarrow>xs. cell_mset c). w x)" for xs
    by (induction xs) (auto split: option.splits)
  then show ?thesis by (simp add: total_def objects_of_def)
qed

lemma sum_mset_mset_list: "(\<Sum>x\<in>#mset xs. w x) = (\<Sum>x\<leftarrow>xs. w x)"
  by (induction xs) (simp_all add: ac_simps)

lemma total_spawn:
  assumes "wf_grid g" and "spawn g objects r = Inr (g', idxs, r')"
  shows "total w g' = total w g + (\<Sum>x\<leftarrow>objects. w x)"
  using spawn_objects_of [OF assms] by (simp add: total_objects_of sum_mset_mset_list)

lemma total_get_objects:
  assumes "wf_grid g"
  shows "(\<Sum>dp\<leftarrow>get_objects g. w (fst dp)) = total w g"
proof -
  have "(\<Sum>dp\<leftarrow>get_objects g. w (fst dp)) = (\<Sum>x\<leftarrow>map fst (get_objects g). w x)"
    by (simp add: comp_def)
  also have "\<dots> = (\<Sum>x\<in>#mset (map fst (get_objects g)). w x)"
    by (simp only: sum_mset_mset_list)
  finally show ?thesis by (simp only: get_objects_mset [OF assms] total_objects_of)
qed

lemma resolve_cases:
  assumes "resolve e t = Inr t'"
  obtains (collision) "length (snd e) > 1" "t' = collide (snd e) t"
  | (landing) d where "snd e = [d]" "t' = land (fst e) d t"
proof (cases "length (snd e) > 1")
  case True
  then show ?thesis using assms collision by (simp add: resolve_def split: prod.splits)
next
  case False
  then obtain d where "snd e = [d]" using assms
    by (cases "snd e") (auto simp: resolve_def split: prod.splits list.splits)
  then show ?thesis using assms landing by (auto simp: resolve_def split: prod.splits)
qed

lemma collide_fields [simp]:
  "air (collide ds t) = air t" "ground (collide ds t) = ground t"
  "new_positions (collide ds t) = new_positions t"
  "air_respawns (collide ds t) = air_respawns t @ map (\<lambda>d. d\<lparr>packet := None\<rparr>) ds"
  "ground_respawns (collide ds t) = ground_respawns t @ packets_of ds"
  "rewards (collide ds t) = fold (\<lambda>d rw. rw(index d \<mapsto> - 1)) ds (rewards t)"
  by (simp_all add: collide_def)

lemma land_fields [simp]:
  "new_positions (land q d t) = new_positions t"
  "air_respawns (land q d t) = air_respawns t"
  "shape (air (land q d t)) = shape (air t)"
  "shape (ground (land q d t)) = shape (ground t)"
  "wf_grid (air (land q d t)) = wf_grid (air t)"
  "wf_grid (ground (land q d t)) = wf_grid (ground t)"
  by (simp_all add: land_def split: option.splits ground_object.splits)

lemma index_landed [simp]: "index (landed q d t) = index d"
  by (simp add: landed_def split: option.splits ground_object.splits)

lemma land_air: "air (land q d t) = setitem (air t) q (Some (landed q d t))"
  by (simp add: land_def landed_def split: option.splits ground_object.splits)

lemma on_ground_simps [simp]: "on_ground (GPacket p) = 1" "on_ground (GDropzone z) = 0"
  by (simp_all add: on_ground_def)

lemma carried_simps [simp]:
  "carried (d\<lparr>packet := Some p\<rparr>) = 1" "carried (d\<lparr>packet := None\<rparr>) = 0"
  by (simp_all add: carried_def)

lemma carried_packet: "packet d = Some p \<Longrightarrow> carried d = 1" "packet d = None \<Longrightarrow> carried d = 0"
  by (simp_all add: carried_def)

lemma land_ground_other:
  "is_inside (ground t) q \<Longrightarrow> is_inside (ground t) p \<Longrightarrow> p \<noteq> q \<Longrightarrow>
   getitem (ground (land q d t)) p = getitem (ground t) p"
  by (auto simp: land_def getitem_setitem_other split: option.splits ground_object.splits)

lemma land_air_other:
  "is_inside (air t) q \<Longrightarrow> is_inside (air t) p \<Longrightarrow> p \<noteq> q \<Longrightarrow>
   getitem (air (land q d t)) p = getitem (air t) p"
  by (simp add: land_air getitem_setitem_other)

lemma land_rewards_other: "i \<noteq> index d \<Longrightarrow> rewards (land q d t) i = rewards t i"
  by (auto simp: land_def split: option.splits ground_object.splits)

lemma land_ground_respawns: "\<exists>ys. ground_respawns (land q d t) = ground_respawns t @ ys"
  by (auto simp: land_def split: option.splits ground_object.splits)

lemma grids_ok_land [simp]: "grids_ok (land q d t) = grids_ok t"
  by (simp add: grids_ok_def)

lemma grids_ok_collide [simp]: "grids_ok (collide ds t) = grids_ok t"
  by (simp add: grids_ok_def)

lemma sum_packets_of: "(\<Sum>x\<leftarrow>packets_of ds. on_ground x) = (\<Sum>d\<leftarrow>ds. carried d)"
  by (induction ds)
    (auto simp: packets_of_def map_filter_Cons map_filter_Nil carried_def split: option.splits)

lemma total_air_put:
  "wf_grid g \<Longrightarrow> is_inside g q \<Longrightarrow> getitem g q = None \<Longrightarrow>
   total w (setitem g q (Some d)) = total w g + w d"
  using total_setitem [of g q w "Some d"] by simp

lemma land_index_total:
  assumes "wf_grid (air t)" "is_inside (air t) q" "getitem (air t) q = None"
    and w: "\<And>d x. w (d\<lparr>packet := x\<rparr>) = w d"
  shows "total w (air (land q d t)) = total w (air t) + w d"
proof -
  have *: "total w (setitem (air t) q (Some d')) = total w (air t) + w d'" for d'
    using assms(1-3) by (rule total_air_put)
  show ?thesis
    by (simp add: land_air * landed_def w split: option.splits ground_object.splits)
qed

lemma land_packets:
  assumes ok: "grids_ok t" and ins: "is_inside (air t) q" and e: "getitem (air t) q = None"
  shows "total on_ground (ground (land q d t)) + total carried (air (land q d t))
           + (\<Sum>x\<leftarrow>ground_respawns (land q d t). on_ground x)
       = total on_ground (ground t) + total carried (air t)
           + (\<Sum>x\<leftarrow>ground_respawns t. on_ground x) + carried d"
proof -
  have wa: "wf_grid (air t)" and wg: "wf_grid (ground t)" and insg: "is_inside (ground t) q"
    using ok ins by (simp_all add: grids_ok_def is_inside_def)
  have A: "total carried (setitem (air t) q (Some d')) = total carried (air t) + carried d'" for d'
    using wa ins e by (rule total_air_put)
  have G: "total on_ground (setitem (ground t) q v)
             + (case getitem (ground t) q of None \<Rightarrow> 0 | Some x \<Rightarrow> on_ground x)
         = total on_ground (ground t) + (case v of None \<Rightarrow> 0 | Some x \<Rightarrow> on_ground x)" for v
    using wg insg by (rule total_setitem)
  show ?thesis
  proof (cases "getitem (ground t) q")
    case None
    then show ?thesis by (simp add: land_def A)
  next
    case (Some obj)
    show ?thesis
    proof (cases obj)
      case (GPacket p)
      show ?thesis
      proof (cases "packet d")
        case None
        then show ?thesis using G [of None] Some GPacket
          by (simp add: land_def A carried_packet)
      next
        case (Some pk)
        then show ?thesis using G [of "Some (GPacket pk)"] \<open>getitem (ground t) q = Some obj\<close> GPacket
          by (simp add: land_def A carried_packet)
      qed
    next
      case (GDropzone z)
      show ?thesis
      proof (cases "packet d")
        case None
        then show ?thesis using Some GDropzone by (simp add: land_def A)
      next
        case (Some pk)
        then show ?thesis using G [of None] \<open>getitem (ground t) q = Some obj\<close> GDropzone
          by (simp add: land_def A carried_packet)
      qed
    qed
  qed
qed

lemma resolve_entries_ok:
  assumes "resolve e t = Inr t'" and "entries_ok (e # es) t"
  shows "entries_ok es t'"
  using assms(1)
proof (cases rule: resolve_cases)
  case collision
  then show ?thesis using assms(2) by (simp add: entries_ok_def is_inside_def)
next
  case (landing d)
  have "is_inside (air t) (fst e)" using assms(2) by (simp add: entries_ok_def)
  moreover have "\<forall>e' \<in> set es. fst e' \<noteq> fst e"
  proof
    fix e' assume "e' \<in> set es"
    then have "fst e' \<in> fst ` set es" by (rule imageI)
    moreover have "fst e \<notin> fst ` set es" using assms(2) by (simp add: entries_ok_def)
    ultimately show "fst e' \<noteq> fst e" by metis
  qed
  ultimately show ?thesis
    using assms(2) by (auto simp: entries_ok_def landing(2) is_inside_def land_air_other)
qed

lemma sum_list_drop_packet:
  assumes "\<And>d x. w (d\<lparr>packet := x\<rparr>) = w d"
  shows "sum_list (map (w \<circ> packet_update (\<lambda>_. None)) ds) = sum_list (map w ds)"
  by (induction ds) (simp_all add: assms)

lemma resolve_index:
  fixes w :: "Drone \<Rightarrow> 'b::comm_monoid_add"
  assumes "resolve e t = Inr t'" and "entries_ok (e # es) t"
    and w: "\<And>d x. w (d\<lparr>packet := x\<rparr>) = w d"
  shows "total w (air t') + (\<Sum>d\<leftarrow>air_respawns t'. w d)
       = total w (air t) + (\<Sum>d\<leftarrow>air_respawns t. w d) + (\<Sum>d\<leftarrow>snd e. w d)"
  using assms(1)
proof (cases rule: resolve_cases)
  case collision
  then show ?thesis by (simp add: sum_list_drop_packet [of w, OF w] ac_simps)
next
  case (landing d)
  have "total w (air (land (fst e) d t)) = total w (air t) + w d"
    using assms(2) by (intro land_index_total w) (simp_all add: entries_ok_def grids_ok_def)
  then show ?thesis by (simp add: landing ac_simps)
qed

lemma resolve_loop_index:
  fixes w :: "Drone \<Rightarrow> 'b::comm_monoid_add"
  assumes w: "\<And>d x. w (d\<lparr>packet := x\<rparr>) = w d"
  shows "for_each resolve es t = Inr t' \<Longrightarrow> entries_ok es t \<Longrightarrow>
     total w (air t') + (\<Sum>d\<leftarrow>air_respawns t'. w d)
       = total w (air t) + (\<Sum>d\<leftarrow>air_respawns t. w d) + (\<Sum>d\<leftarrow>concat (map snd es). w d)"
proof (induction es arbitrary: t)
  case Nil
  then show ?case by simp
next
  case (Cons e es)
  from Cons.prems(1) obtain t1 where r: "resolve e t = Inr t1"
    and rest: "for_each resolve es t1 = Inr t'" by (auto split: sum.splits)
  note ok1 = resolve_entries_ok [OF r Cons.prems(2)]
  show ?case
    using Cons.IH [OF rest ok1] resolve_index [of e t t1 es w, OF r Cons.prems(2) w]
    by (simp add: ac_simps)
qed

lemma resolve_packets:
  assumes "resolve e t = Inr t'" and "entries_ok (e # es) t"
  shows "total on_ground (ground t') + total carried (air t')
           + (\<Sum>x\<leftarrow>ground_respawns t'. on_ground x)
       = total on_ground (ground t) + total carried (air t)
           + (\<Sum>x\<leftarrow>ground_respawns t. on_ground x) + (\<Sum>d\<leftarrow>snd e. carried d)"
  using assms(1)
proof (cases rule: resolve_cases)
  case collision
  then show ?thesis by (simp add: sum_packets_of)
next
  case (landing d)
  have "total on_ground (ground (land (fst e) d t)) + total carried (air (land (fst e) d t))
           + (\<Sum>x\<leftarrow>ground_respawns (land (fst e) d t). on_ground x)
       = total on_ground (ground t) + total carried (air t)
           + (\<Sum>x\<leftarrow>ground_respawns t. on_ground x) + carried d"
    using assms(2) by (intro land_packets) (simp_all add: entries_ok_def)
  then show ?thesis by (simp add: landing)
qed

lemma resolve_loop_packets:
  "for_each resolve es t = Inr t' \<Longrightarrow> entries_ok es t \<Longrightarrow>
     total on_ground (ground t') + total carried (air t')
           + (\<Sum>x\<leftarrow>ground_respawns t'. on_ground x)
       = total on_ground (ground t) + total carried (air t)
           + (\<Sum>x\<leftarrow>ground_respawns t. on_ground x) + (\<Sum>d\<leftarrow>concat (map snd es). carried d)"
proof (induction es arbitrary: t)
  case Nil
  then show ?case by simp
next
  case (Cons e es)
  from Cons.prems(1) obtain t1 where r: "resolve e t = Inr t1"
    and rest: "for_each resolve es t1 = Inr t'" by (auto split: sum.splits)
  note ok1 = resolve_entries_ok [OF r Cons.prems(2)]
  show ?case
    using Cons.IH [OF rest ok1] resolve_packets [OF r Cons.prems(2)] by simp
qed

lemma resolve_loop_misc:
  "for_each resolve es t = Inr t' \<Longrightarrow>
     grids_ok t' = grids_ok t \<and> shape (air t') = shape (air t) \<and> shape (ground t') = shape (ground t) \<and>
     new_positions t' = new_positions t \<and>
     ((\<forall>d \<in> set (air_respawns t). packet d = None) \<longrightarrow> (\<forall>d \<in> set (air_respawns t'). packet d = None))"
proof (induction es arbitrary: t)
  case Nil
  then show ?case by simp
next
  case (Cons e es)
  from Cons.prems(1) obtain t1 where r: "resolve e t = Inr t1"
    and rest: "for_each resolve es t1 = Inr t'" by (auto split: sum.splits)
  from r have "grids_ok t1 = grids_ok t \<and> shape (air t1) = shape (air t) \<and>
     shape (ground t1) = shape (ground t) \<and> new_positions t1 = new_positions t \<and>
     ((\<forall>d \<in> set (air_respawns t). packet d = None) \<longrightarrow> (\<forall>d \<in> set (air_respawns t1). packet d = None))"
  proof (cases rule: resolve_cases)
    case collision
    show ?thesis unfolding collision(2) by (simp add: ball_Un)
  next
    case (landing d)
    show ?thesis unfolding landing(2) by simp
  qed
  then show ?case using Cons.IH [OF rest] by metis
qed

lemma pick_packet_cases:
  assumes "pick_packet p s = Inr s'"
  obtains (nothing) "\<nexists>pk. getitem (ground s) p = Some (GPacket pk)" "s' = s"
  | (picked) pk d where "getitem (ground s) p = Some (GPacket pk)" "getitem (air s) p = Some d"
      "s' = s\<lparr>air := setitem (air s) p (Some (d\<lparr>packet := Some pk\<rparr>)),
              ground := setitem (ground s) p None\<rparr>"
  using assms by (auto simp: pick_packet_def split: option.splits ground_object.splits)

lemma pick_packet_succeeds:
  assumes "respawned_ok (p # ps) s"
  shows "\<exists>s'. pick_packet p s = Inr s'"
  using assms by (auto simp: pick_packet_def respawned_ok_def split: option.splits ground_object.splits)

lemma pick_packet_frame:
  assumes "pick_packet p s = Inr s'" and "grids_ok s" and "is_inside (air s) p"
    and "is_inside (air s) q" and "q \<noteq> p"
  shows "getitem (air s') q = getitem (air s) q" and "getitem (ground s') q = getitem (ground s) q"
proof -
  have g: "is_inside (ground s) p" "is_inside (ground s) q"
    using assms(2-4) by (simp_all add: grids_ok_def is_inside_def)
  from assms(1) show "getitem (air s') q = getitem (air s) q"
    by (cases rule: pick_packet_cases) (simp_all add: getitem_setitem_other assms)
  from assms(1) show "getitem (ground s') q = getitem (ground s) q"
    by (cases rule: pick_packet_cases) (simp_all add: getitem_setitem_other g assms)
qed

lemma pick_packet_shape:
  assumes "pick_packet p s = Inr s'"
  shows "shape (air s') = shape (air s)" "shape (ground s') = shape (ground s)"
    "grids_ok s' = grids_ok s"
  using assms by (cases rule: pick_packet_cases; simp add: grids_ok_def)+

lemma pick_packet_ok:
  assumes "pick_packet p s = Inr s'" and "respawned_ok (p # ps) s"
  shows "respawned_ok ps s'"
proof -
  have ok: "grids_ok s" and ins: "is_inside (air s) p" and np: "p \<notin> set ps"
    using assms(2) by (simp_all add: respawned_ok_def)
  have "is_inside (air s') q \<and> (\<exists>d. getitem (air s') q = Some d \<and> packet d = None)"
    if q: "q \<in> set ps" for q
  proof -
    have "q \<noteq> p" using q np by auto
    moreover have "is_inside (air s) q" "\<exists>d. getitem (air s) q = Some d \<and> packet d = None"
      using assms(2) q by (auto simp: respawned_ok_def)
    ultimately show ?thesis
      using pick_packet_frame(1) [OF assms(1) ok ins, of q] pick_packet_shape(1) [OF assms(1)]
      by (simp add: is_inside_def)
  qed
  then show ?thesis
    using assms(2) pick_packet_shape(3) [OF assms(1)] by (simp add: respawned_ok_def)
qed

lemma pick_packet_index:
  fixes w :: "Drone \<Rightarrow> 'b::cancel_comm_monoid_add"
  assumes "pick_packet p s = Inr s'" and "grids_ok s" and "is_inside (air s) p"
    and w: "\<And>d x. w (d\<lparr>packet := x\<rparr>) = w d"
  shows "total w (air s') = total w (air s)"
  using assms(1)
proof (cases rule: pick_packet_cases)
  case nothing
  then show ?thesis by simp
next
  case (picked pk d)
  have "total w (setitem (air s) p (Some (d\<lparr>packet := Some pk\<rparr>))) + w d
      = total w (air s) + w (d\<lparr>packet := Some pk\<rparr>)"
    using total_setitem [of "air s" p w "Some (d\<lparr>packet := Some pk\<rparr>)"] assms(2,3) picked(2)
    by (simp add: grids_ok_def)
  then show ?thesis by (simp add: picked(3) w)
qed

lemma pick_packet_packets:
  assumes "pick_packet p s = Inr s'" and "respawned_ok (p # ps) s"
  shows "total on_ground (ground s') + total carried (air s')
       = total on_ground (ground s) + total carried (air s)"
  using assms(1)
proof (cases rule: pick_packet_cases)
  case nothing
  then show ?thesis by simp
next
  case (picked pk d)
  have ok: "grids_ok s" and ins: "is_inside (air s) p" and d: "packet d = None"
    using assms(2) picked(2) by (auto simp: respawned_ok_def)
  have insg: "is_inside (ground s) p" using ok ins by (simp add: grids_ok_def is_inside_def)
  have "total carried (setitem (air s) p (Some (d\<lparr>packet := Some pk\<rparr>))) + carried d
      = total carried (air s) + carried (d\<lparr>packet := Some pk\<rparr>)"
    using total_setitem [of "air s" p carried "Some (d\<lparr>packet := Some pk\<rparr>)"] ok ins picked(2)
    by (simp add: grids_ok_def)
  moreover have "total on_ground (setitem (ground s) p None) + on_ground (GPacket pk)
      = total on_ground (ground s)"
    using total_setitem [of "ground s" p on_ground None] ok insg picked(1)
    by (simp add: grids_ok_def)
  ultimately show ?thesis using d by (simp add: picked(3) carried_packet)
qed

lemma pick_loop:
  fixes w :: "Drone \<Rightarrow> 'b::cancel_comm_monoid_add"
  assumes w: "\<And>d x. w (d\<lparr>packet := x\<rparr>) = w d"
  shows "respawned_ok ps s \<Longrightarrow>
     \<exists>s'. pick_packets_after_respawn ps s = Inr s' \<and>
       grids_ok s' \<and> shape (air s') = shape (air s) \<and> shape (ground s') = shape (ground s) \<and>
       total w (air s') = total w (air s) \<and>
       total on_ground (ground s') + total carried (air s')
         = total on_ground (ground s) + total carried (air s)"
  unfolding pick_packets_after_respawn_def
proof (induction ps arbitrary: s)
  case Nil
  then show ?case by (simp add: respawned_ok_def)
next
  case (Cons p ps)
  from pick_packet_succeeds [OF Cons.prems] obtain s1 where p1: "pick_packet p s = Inr s1" by blast
  note ok1 = pick_packet_ok [OF p1 Cons.prems]
  have ok: "grids_ok s" and ins: "is_inside (air s) p"
    using Cons.prems by (simp_all add: respawned_ok_def)
  from Cons.IH [OF ok1] obtain s' where s': "for_each pick_packet ps s1 = Inr s'"
    "grids_ok s'" "shape (air s') = shape (air s1)" "shape (ground s') = shape (ground s1)"
    "total w (air s') = total w (air s1)"
    "total on_ground (ground s') + total carried (air s')
         = total on_ground (ground s1) + total carried (air s1)" by blast
  show ?case
    using s' p1 pick_packet_shape [OF p1] pick_packet_index [of p s s1 w, OF p1 ok ins w]
      pick_packet_packets [OF p1 Cons.prems]
    by simp
qed

lemma survivors_crashed_sum:
  fixes w :: "Drone \<Rightarrow> 'b::comm_monoid_add"
  shows "(\<Sum>dq\<leftarrow>survivors actions g dps. w (fst dq)) + (\<Sum>d\<leftarrow>crashed actions g dps. w d)
       = (\<Sum>dp\<leftarrow>dps. w (fst dp))"
  by (induction dps) (auto simp: survivors_Cons crashed_Cons survivors_def crashed_def map_filter_Nil
      ac_simps split: option.splits)

lemma survivors_heading:
  "(d, q) \<in> set (survivors actions g dps) \<longleftrightarrow> (\<exists>p. (d, p) \<in> set dps \<and> heading actions g (d, p) = Some q)"
proof
  assume "(d, q) \<in> set (survivors actions g dps)"
  then obtain dp where "dp \<in> set dps" "map_option (\<lambda>q. (fst dp, q)) (heading actions g dp) = Some (d, q)"
    by (auto simp: survivors_def set_map_filter)
  then have "(d, snd dp) \<in> set dps \<and> heading actions g (d, snd dp) = Some q"
    by (cases dp) auto
  then show "\<exists>p. (d, p) \<in> set dps \<and> heading actions g (d, p) = Some q" by blast
next
  assume "\<exists>p. (d, p) \<in> set dps \<and> heading actions g (d, p) = Some q"
  then obtain p where "(d, p) \<in> set dps" "heading actions g (d, p) = Some q" by blast
  then have "\<exists>x \<in> set dps. map_option (\<lambda>q. (fst x, q)) (heading actions g x) = Some (d, q)"
    by (intro bexI [of _ "(d, p)"]) simp_all
  then show "(d, q) \<in> set (survivors actions g dps)"
    by (simp add: survivors_def set_map_filter)
qed

lemma heading_inside: "heading actions g dp = Some q \<Longrightarrow> is_inside g q"
  by (auto simp: heading_def split: sum.splits if_splits)

lemma total_empty:
  assumes "wf_grid g" and "\<forall>p. is_inside g p \<longrightarrow> getitem g p = None"
  shows "total w g = 0"
proof -
  have "get_objects g = []"
  proof (cases "get_objects g")
    case (Cons dp dps)
    then have "(fst dp, snd dp) \<in> set (get_objects g)" by simp
    then have "is_inside g (snd dp) \<and> getitem g (snd dp) = Some (fst dp)"
      by (simp only: get_objects_iff)
    then show ?thesis using assms(2) by (metis option.distinct(1))
  qed simp
  then show ?thesis using total_get_objects [OF assms(1), of w] by simp
qed

lemma sum_list_concat_grouped:
  fixes w :: "Drone \<Rightarrow> 'b::comm_monoid_add"
  shows "(\<Sum>d\<leftarrow>concat (map snd (grouped svs [])). w d) = (\<Sum>dq\<leftarrow>svs. w (fst dq))"
proof -
  have "(\<Sum>d\<leftarrow>concat (map snd (grouped svs [])). w d)
      = (\<Sum>d\<in>#mset (concat (map snd (grouped svs []))). w d)"
    by (simp only: sum_mset_mset_list)
  also have "\<dots> = (\<Sum>d\<in>#mset (map fst svs). w d)"
    by (simp only: mset_concat_grouped) simp
  also have "\<dots> = (\<Sum>d\<leftarrow>map fst svs. w d)" by (simp only: sum_mset_mset_list)
  finally show ?thesis by (simp add: comp_def)
qed

lemma initial_tick_fields [simp]:
  "air (initial_tick s actions) = air s" "ground (initial_tick s actions) = ground s"
  "rewards (initial_tick s actions) = (\<lambda>i. map_option (\<lambda>_. 0) (actions i))"
  "new_positions (initial_tick s actions) = []" "air_respawns (initial_tick s actions) = []"
  "ground_respawns (initial_tick s actions) = []"
  by (simp_all add: initial_tick_def DeliveryDrones.extend_def)

lemma move_drones_split:
  assumes "move_drones s actions = Inr t"
  obtains t1 where "for_each (navigate actions) (get_objects (air s)) (initial_tick s actions) = Inr t1"
    and "for_each resolve (new_positions t1) t1 = Inr t"
  using assms by (auto simp: move_drones_def initial_tick_def Let_def split: sum.splits)

lemma after_navigate:
  assumes ok: "grids_ok s"
    and nav: "for_each (navigate actions) (get_objects (air s)) (initial_tick s actions) = Inr t1"
  shows "ground t1 = ground s" and "shape (air t1) = shape (air s)" and "grids_ok t1"
    and "new_positions t1 = grouped (survivors actions (air s) (get_objects (air s))) []"
    and "air_respawns t1 = map (\<lambda>d. d\<lparr>packet := None\<rparr>) (crashed actions (air s) (get_objects (air s)))"
    and "ground_respawns t1 = packets_of (crashed actions (air s) (get_objects (air s)))"
    and "rewards t1 = fold (\<lambda>d rw. rw(index d \<mapsto> - 1)) (crashed actions (air s) (get_objects (air s)))
                        (\<lambda>i. map_option (\<lambda>_. 0) (actions i))"
    and "\<forall>p. is_inside (air s) p \<longrightarrow> getitem (air t1) p = None"
    and "entries_ok (new_positions t1) t1"
proof -
  note nl = navigate_loop [OF nav]
  show g: "ground t1 = ground s" and sh: "shape (air t1) = shape (air s)" using nl by simp_all
  show gok: "grids_ok t1" using nl ok by (simp add: grids_ok_def)
  show np: "new_positions t1 = grouped (survivors actions (air s) (get_objects (air s))) []"
    using nl by simp
  show "air_respawns t1 = map (\<lambda>d. d\<lparr>packet := None\<rparr>) (crashed actions (air s) (get_objects (air s)))"
    using nl by simp
  show "ground_respawns t1 = packets_of (crashed actions (air s) (get_objects (air s)))"
    using nl by simp
  show "rewards t1 = fold (\<lambda>d rw. rw(index d \<mapsto> - 1)) (crashed actions (air s) (get_objects (air s)))
                        (\<lambda>i. map_option (\<lambda>_. 0) (actions i))"
    using nl by simp
  have wf: "wf_grid (air s)" using ok by (simp add: grids_ok_def)
  have insd: "\<forall>dp \<in> set (get_objects (air s)). is_inside (air (initial_tick s actions)) (snd dp)"
    using get_objects_iff [of _ _ "air s"] by auto
  show empty: "\<forall>p. is_inside (air s) p \<longrightarrow> getitem (air t1) p = None"
  proof (intro allI impI)
    fix p assume p: "is_inside (air s) p"
    have "getitem (air t1) p =
        (if p \<in> snd ` set (get_objects (air s)) then None else getitem (air (initial_tick s actions)) p)"
      using navigate_loop_air [OF nav _ insd, of p] wf p by simp
    moreover have "getitem (air s) p = None" if "p \<notin> snd ` set (get_objects (air s))"
    proof (cases "getitem (air s) p")
      case (Some d)
      then have "(d, p) \<in> set (get_objects (air s))" using p by (simp add: get_objects_iff)
      then show ?thesis using that by force
    qed simp
    ultimately show "getitem (air t1) p = None" by auto
  qed
  have ins1: "is_inside (air t1) = is_inside (air s)" using sh by (simp add: is_inside_def fun_eq_iff)
  have "\<forall>e \<in> set (new_positions t1). is_inside (air t1) (fst e) \<and> getitem (air t1) (fst e) = None"
  proof
    fix e assume e: "e \<in> set (new_positions t1)"
    then have "fst e \<in> snd ` set (survivors actions (air s) (get_objects (air s)))"
      using keys_grouped [of "survivors actions (air s) (get_objects (air s))" "[]"]
      by (auto simp: np)
    then obtain d where "(d, fst e) \<in> set (survivors actions (air s) (get_objects (air s)))" by force
    then have "is_inside (air s) (fst e)" by (auto simp: survivors_heading dest: heading_inside)
    then show "is_inside (air t1) (fst e) \<and> getitem (air t1) (fst e) = None"
      using empty [rule_format, of "fst e"] by (simp add: ins1)
  qed
  then show "entries_ok (new_positions t1) t1"
    using gok by (simp add: entries_ok_def np distinct_grouped)
qed

lemma move_drones_index:
  fixes w :: "Drone \<Rightarrow> 'b::comm_monoid_add"
  assumes ok: "grids_ok s" and mv: "move_drones s actions = Inr t"
    and w: "\<And>d x. w (d\<lparr>packet := x\<rparr>) = w d"
  shows "total w (air t) + (\<Sum>d\<leftarrow>air_respawns t. w d) = total w (air s)"
proof -
  from mv obtain t1 where nav: "for_each (navigate actions) (get_objects (air s)) (initial_tick s actions) = Inr t1"
    and res: "for_each resolve (new_positions t1) t1 = Inr t" by (rule move_drones_split)
  note an = after_navigate [OF ok nav]
  let ?dps = "get_objects (air s)"
  have z: "total w (air t1) = 0"
    using an(3,2,8) by (intro total_empty) (simp_all add: grids_ok_def is_inside_def)
  have "total w (air t) + (\<Sum>d\<leftarrow>air_respawns t. w d)
      = total w (air t1) + (\<Sum>d\<leftarrow>air_respawns t1. w d) + (\<Sum>d\<leftarrow>concat (map snd (new_positions t1)). w d)"
    using resolve_loop_index [of w, OF w res an(9)] .
  also have "\<dots> = (\<Sum>d\<leftarrow>crashed actions (air s) ?dps. w d) + (\<Sum>dq\<leftarrow>survivors actions (air s) ?dps. w (fst dq))"
    by (simp add: z an(4,5) sum_list_concat_grouped sum_list_drop_packet [of w, OF w])
  also have "\<dots> = (\<Sum>dp\<leftarrow>?dps. w (fst dp))"
    using survivors_crashed_sum [where w = w and actions = actions and g = "air s" and dps = ?dps]
    by (simp add: ac_simps)
  also have "\<dots> = total w (air s)" using ok by (intro total_get_objects) (simp add: grids_ok_def)
  finally show ?thesis .
qed

lemma move_drones_packets:
  assumes ok: "grids_ok s" and mv: "move_drones s actions = Inr t"
  shows "total on_ground (ground t) + total carried (air t) + (\<Sum>x\<leftarrow>ground_respawns t. on_ground x)
       = total on_ground (ground s) + total carried (air s)"
    and "\<forall>d \<in> set (air_respawns t). packet d = None"
    and "grids_ok t" and "shape (air t) = shape (air s)" and "shape (ground t) = shape (ground s)"
proof -
  from mv obtain t1 where nav: "for_each (navigate actions) (get_objects (air s)) (initial_tick s actions) = Inr t1"
    and res: "for_each resolve (new_positions t1) t1 = Inr t" by (rule move_drones_split)
  note an = after_navigate [OF ok nav]
  note misc = resolve_loop_misc [OF res]
  let ?dps = "get_objects (air s)"
  have z: "total carried (air t1) = 0"
    using an(3,2,8) by (intro total_empty) (simp_all add: grids_ok_def is_inside_def)
  have "total on_ground (ground t) + total carried (air t) + (\<Sum>x\<leftarrow>ground_respawns t. on_ground x)
      = total on_ground (ground t1) + total carried (air t1)
           + (\<Sum>x\<leftarrow>ground_respawns t1. on_ground x)
           + (\<Sum>d\<leftarrow>concat (map snd (new_positions t1)). carried d)"
    using resolve_loop_packets [OF res an(9)] .
  also have "\<dots> = total on_ground (ground s) +
       ((\<Sum>d\<leftarrow>crashed actions (air s) ?dps. carried d) + (\<Sum>dq\<leftarrow>survivors actions (air s) ?dps. carried (fst dq)))"
    by (simp add: z an(1,4,6) sum_list_concat_grouped sum_packets_of)
  also have "\<dots> = total on_ground (ground s) + (\<Sum>dp\<leftarrow>?dps. carried (fst dp))"
    using survivors_crashed_sum [where w = carried and actions = actions and g = "air s" and dps = ?dps]
    by (simp add: ac_simps)
  also have "\<dots> = total on_ground (ground s) + total carried (air s)"
    using ok total_get_objects [of "air s" carried] by (simp add: grids_ok_def)
  finally show "total on_ground (ground t) + total carried (air t) + (\<Sum>x\<leftarrow>ground_respawns t. on_ground x)
       = total on_ground (ground s) + total carried (air s)" .
  show "\<forall>d \<in> set (air_respawns t). packet d = None" using misc an(5) by simp
  show "grids_ok t" using misc an(3) by simp
  show "shape (air t) = shape (air s)" using misc an(2) by simp
  show "shape (ground t) = shape (ground s)" using misc an(1) by simp
qed

lemma length_filter_sum: "length (filter P xs) = (\<Sum>c\<leftarrow>xs. if P c then 1 else 0)"
  by (induction xs) simp_all

lemma count_air_total: "count_air s i = total (\<lambda>d. if index d = i then 1 else 0) (air s)"
  unfolding count_air_def total_def length_filter_sum
  by (rule arg_cong [where f = sum_list], rule map_cong) (auto split: option.splits)

lemma occupied_total: "occupied s = total (\<lambda>d. 1) (air s)"
  unfolding occupied_def total_def length_filter_sum
  by (rule arg_cong [where f = sum_list], rule map_cong) (auto split: option.splits)

lemma count_packets_total: "count_packets s = total on_ground (ground s) + total carried (air s)"
proof -
  have "length (filter (\<lambda>c. case c of Some (GPacket p) \<Rightarrow> True | _ \<Rightarrow> False) (grid (ground s)))
      = total on_ground (ground s)"
    unfolding total_def length_filter_sum
    by (rule arg_cong [where f = sum_list], rule map_cong)
      (auto split: option.splits ground_object.splits)
  moreover have "length (filter (\<lambda>c. case c of Some drone \<Rightarrow> packet drone \<noteq> None | None \<Rightarrow> False) (grid (air s)))
      = total carried (air s)"
    unfolding total_def length_filter_sum
    by (rule arg_cong [where f = sum_list], rule map_cong)
      (auto simp: carried_def split: option.splits)
  ultimately show ?thesis by (simp add: count_packets_def)
qed

lemma respawn_split:
  assumes "respawn t actions r = Inr (out, r')"
  obtains g' gps r1 a' ps where
    "spawn (ground t) (ground_respawns t) r = Inr (g', gps, r1)"
    "spawn (air t) (air_respawns t) r1 = Inr (a', ps, r')"
    "pick_packets_after_respawn ps \<lparr>air = a', ground = g'\<rparr> = Inr (grids out)"
    "out_rewards out = rewards t"
    "out_dones out = fold (\<lambda>drone dones. dones(index drone \<mapsto> True)) (air_respawns t)
                       (\<lambda>i. map_option (\<lambda>_. False) (actions i))"
    "info_ground_respawns (out_info out) = ground_respawns t"
    "info_air_respawns (out_info out) = List.map_filter (getitem (air (grids out))) ps"
proof -
  from assms obtain gs where gs: "spawn (ground t) (ground_respawns t) r = Inr gs"
    by (auto simp: respawn_def split: sum.splits)
  from assms gs obtain as where as: "spawn (air t) (air_respawns t) (snd (snd gs)) = Inr as"
    by (auto simp: respawn_def split: sum.splits)
  from assms gs as obtain s' where s': "pick_packets_after_respawn (fst (snd as))
       \<lparr>air = fst as, ground = fst gs\<rparr> = Inr s'"
    by (auto simp: respawn_def split: sum.splits)
  from assms gs as s' have out: "out = \<lparr>grids = s', out_rewards = rewards t,
      out_dones = fold (\<lambda>drone dones. dones(index drone \<mapsto> True)) (air_respawns t)
                       (\<lambda>i. map_option (\<lambda>_. False) (actions i)),
      out_info = \<lparr>info_air_respawns = List.map_filter (getitem (air s')) (fst (snd as)),
                  info_ground_respawns = ground_respawns t\<rparr>\<rparr>" and r': "r' = snd (snd as)"
    by (auto simp: respawn_def)
  show ?thesis
    by (rule that [of "fst gs" "fst (snd gs)" "snd (snd gs)" "fst as" "fst (snd as)"])
      (simp_all add: gs as s' out r')
qed

lemma respawned_ok_after_spawn:
  assumes ok: "grids_ok t" and none: "\<forall>d \<in> set (air_respawns t). packet d = None"
    and sg: "spawn (ground t) (ground_respawns t) r = Inr (g', gps, r1)"
    and sa: "spawn (air t) (air_respawns t) r1 = Inr (a', ps, r2)"
  shows "respawned_ok ps \<lparr>air = a', ground = g'\<rparr>"
proof -
  have wa: "wf_grid (air t)" and wg: "wf_grid (ground t)" and sh: "shape (ground t) = shape (air t)"
    using ok by (simp_all add: grids_ok_def)
  note ga = spawn_getitem [OF wa sa] and gg = spawn_getitem [OF wg sg]
  note ra = spawn_result [OF sa]
  have "grids_ok \<lparr>air = a', ground = g'\<rparr>"
    using ga(3,4) gg(3,4) sh by (simp add: grids_ok_def)
  moreover have "is_inside a' p \<and> (\<exists>d. getitem a' p = Some d \<and> packet d = None)"
    if p: "p \<in> set ps" for p
  proof -
    from p obtain i where i: "i < length ps" "ps ! i = p" by (auto simp: in_set_conv_nth)
    then have il: "i < length (air_respawns t)" using ra(1) by simp
    have "getitem a' p = Some (air_respawns t ! i)" using ga(1) [OF il] i(2) by simp
    moreover have "packet (air_respawns t ! i) = None" using none il by simp
    moreover have "is_inside a' p" using ra(3) p ga(3) by (auto simp: empty_cells_def is_inside_def)
    ultimately show ?thesis by simp
  qed
  ultimately show ?thesis using ra(2) by (simp add: respawned_ok_def)
qed

lemma step_split:
  assumes "step s actions r = Inr (out, r')"
  obtains t where "move_drones s actions = Inr t" "respawn t actions r = Inr (out, r')"
  using assms by (auto simp: step_def split: sum.splits)

lemma step_index_total:
  fixes w :: "Drone \<Rightarrow> 'b::cancel_comm_monoid_add"
  assumes ok: "grids_ok s" and st: "step s actions r = Inr (out, r')"
    and w: "\<And>d x. w (d\<lparr>packet := x\<rparr>) = w d"
  shows "total w (air (grids out)) = total w (air s)"
proof -
  from st obtain t where mv: "move_drones s actions = Inr t" and rs: "respawn t actions r = Inr (out, r')"
    by (rule step_split)
  note mp = move_drones_packets [OF ok mv]
  from rs obtain g' gps r1 a' ps where
    sg: "spawn (ground t) (ground_respawns t) r = Inr (g', gps, r1)" and
    sa: "spawn (air t) (air_respawns t) r1 = Inr (a', ps, r')" and
    pk: "pick_packets_after_respawn ps \<lparr>air = a', ground = g'\<rparr> = Inr (grids out)"
    by (rule respawn_split)
  note rok = respawned_ok_after_spawn [OF mp(3) mp(2) sg sa]
  from pick_loop [of w ps "\<lparr>air = a', ground = g'\<rparr>", OF w rok] pk
  have "total w (air (grids out)) = total w a'" by auto
  also have "\<dots> = total w (air t) + (\<Sum>d\<leftarrow>air_respawns t. w d)"
    using mp(3) by (intro total_spawn [OF _ sa]) (simp add: grids_ok_def)
  also have "\<dots> = total w (air s)" using move_drones_index [of s actions t w, OF ok mv w] .
  finally show ?thesis .
qed

lemma step_grids_ok:
  assumes ok: "grids_ok s" and st: "step s actions r = Inr (out, r')"
  shows "grids_ok (grids out)" and "shape (air (grids out)) = shape (air s)"
proof -
  from st obtain t where mv: "move_drones s actions = Inr t" and rs: "respawn t actions r = Inr (out, r')"
    by (rule step_split)
  note mp = move_drones_packets [OF ok mv]
  from rs obtain g' gps r1 a' ps where
    sg: "spawn (ground t) (ground_respawns t) r = Inr (g', gps, r1)" and
    sa: "spawn (air t) (air_respawns t) r1 = Inr (a', ps, r')" and
    pk: "pick_packets_after_respawn ps \<lparr>air = a', ground = g'\<rparr> = Inr (grids out)"
    by (rule respawn_split)
  note rok = respawned_ok_after_spawn [OF mp(3) mp(2) sg sa]
  have wa: "wf_grid (air t)" using mp(3) by (simp add: grids_ok_def)
  from pick_loop [of "\<lambda>d. 0::nat" ps "\<lparr>air = a', ground = g'\<rparr>", OF _ rok] pk
  show "grids_ok (grids out)" by auto
  from pick_loop [of "\<lambda>d. 0::nat" ps "\<lparr>air = a', ground = g'\<rparr>", OF _ rok] pk
  show "shape (air (grids out)) = shape (air s)"
    using spawn_getitem(3) [OF wa sa] mp(4) by auto
qed

lemma Inr_projr: "\<not> isl x \<Longrightarrow> x = Inr (fst (projr x), snd (projr x))"
  by (cases x) auto

lemma fold_rewards_other:
  fixes ds :: "Drone list"
  shows "i \<notin> index ` set ds \<Longrightarrow> fold (\<lambda>d rw. rw(index d \<mapsto> v)) ds rw0 i = rw0 i"
  by (induction ds arbitrary: rw0) auto

lemma fold_rewards_member:
  fixes ds :: "Drone list"
  shows "i \<in> index ` set ds \<Longrightarrow> fold (\<lambda>d rw. rw(index d \<mapsto> v)) ds rw0 i = Some v"
proof (induction ds arbitrary: rw0)
  case Nil
  then show ?case by simp
next
  case (Cons x ds)
  show ?case
  proof (cases "i \<in> index ` set ds")
    case True
    then show ?thesis using Cons.IH by simp
  next
    case False
    then have i: "i = index x" using Cons.prems by simp
    have "fold (\<lambda>d rw. rw(index d \<mapsto> v)) (x # ds) rw0 i
        = fold (\<lambda>d rw. rw(index d \<mapsto> v)) ds (rw0(index x \<mapsto> v)) i"
      by (simp only: fold.simps comp_apply)
    also have "\<dots> = (rw0(index x \<mapsto> v)) i" by (rule fold_rewards_other [OF False])
    also have "\<dots> = Some v" by (simp only: i fun_upd_same)
    finally show ?thesis .
  qed
qed

lemma resolve_frame:
  assumes r: "resolve e t = Inr t'" and ok: "grids_ok t" and ins: "is_inside (air t) (fst e)"
  shows "is_inside (air t) q \<Longrightarrow> q \<noteq> fst e \<Longrightarrow> getitem (air t') q = getitem (air t) q"
    and "is_inside (air t) q \<Longrightarrow> q \<noteq> fst e \<Longrightarrow> getitem (ground t') q = getitem (ground t) q"
    and "i \<notin> index ` set (snd e) \<Longrightarrow> rewards t' i = rewards t i"
proof -
  have g: "is_inside (ground t) = is_inside (air t)"
    using ok by (simp add: grids_ok_def is_inside_def fun_eq_iff)
  from r show "is_inside (air t) q \<Longrightarrow> q \<noteq> fst e \<Longrightarrow> getitem (air t') q = getitem (air t) q"
    by (cases rule: resolve_cases) (simp_all add: land_air_other ins)
  from r show "is_inside (air t) q \<Longrightarrow> q \<noteq> fst e \<Longrightarrow> getitem (ground t') q = getitem (ground t) q"
    by (cases rule: resolve_cases) (simp_all add: land_ground_other ins g)
  from r show "i \<notin> index ` set (snd e) \<Longrightarrow> rewards t' i = rewards t i"
    by (cases rule: resolve_cases) (simp_all add: land_rewards_other fold_rewards_other)
qed

lemma resolve_loop_frame:
  "for_each resolve es t = Inr t' \<Longrightarrow> entries_ok es t \<Longrightarrow>
     (\<forall>q. is_inside (air t) q \<and> q \<notin> fst ` set es \<longrightarrow>
        getitem (air t') q = getitem (air t) q \<and> getitem (ground t') q = getitem (ground t) q) \<and>
     (\<forall>i. i \<notin> index ` set (drones_of es) \<longrightarrow> rewards t' i = rewards t i)"
proof (induction es arbitrary: t)
  case Nil
  then show ?case by simp
next
  case (Cons e es)
  from Cons.prems(1) obtain t1 where r: "resolve e t = Inr t1"
    and rest: "for_each resolve es t1 = Inr t'" by (auto split: sum.splits)
  note ok1 = resolve_entries_ok [OF r Cons.prems(2)]
  have ok: "grids_ok t" and ins: "is_inside (air t) (fst e)"
    using Cons.prems(2) by (simp_all add: entries_ok_def)
  note fr = resolve_frame [OF r ok ins]
  have sh: "is_inside (air t1) = is_inside (air t)"
    using resolve_loop_misc [of "[e]" t t1] r by (simp add: is_inside_def fun_eq_iff)
  note IH = Cons.IH [OF rest ok1]
  show ?case
  proof (intro conjI allI impI)
    fix q assume q: "is_inside (air t) q \<and> q \<notin> fst ` set (e # es)"
    then have "is_inside (air t1) q \<and> q \<notin> fst ` set es" by (simp add: sh)
    then have "getitem (air t') q = getitem (air t1) q" "getitem (ground t') q = getitem (ground t1) q"
      using IH [THEN conjunct1, rule_format, of q] by blast+
    then show "getitem (air t') q = getitem (air t) q" "getitem (ground t') q = getitem (ground t) q"
      using fr(1,2) [of q] q by simp_all
  next
    fix i assume "i \<notin> index ` set (drones_of (e # es))"
    then have "i \<notin> index ` set (snd e)" "i \<notin> index ` set (drones_of es)"
      by (auto simp: drones_of_def)
    then show "rewards t' i = rewards t i"
      using IH [THEN conjunct2, rule_format, of i] fr(3) [of i] by simp
  qed
qed

lemma land_ground_respawns_eq:
  "ground_respawns (land q d t) = ground_respawns t @ deliveries (ground t) q d"
  by (simp add: land_def deliveries_def split: option.splits ground_object.splits)

lemma land_at:
  assumes "grids_ok t" and "is_inside (air t) q"
  shows "getitem (air (land q d t)) q = Some (landed q d t)"
    and "getitem (ground (land q d t)) q =
           (case getitem (ground t) q of
              None \<Rightarrow> None
            | Some (GPacket p) \<Rightarrow> map_option GPacket (packet d)
            | Some (GDropzone z) \<Rightarrow>
                (case packet d of
                   None \<Rightarrow> Some (GDropzone z)
                 | Some pk \<Rightarrow> if Packet_index pk = Dropzone_index z then None else Some (GDropzone z)))"
    and "rewards (land q d t) (index d) =
           (if deliveries (ground t) q d = [] then rewards t (index d) else Some 1)"
proof -
  have wa: "wf_grid (air t)" and wg: "wf_grid (ground t)" and ig: "is_inside (ground t) q"
    using assms by (simp_all add: grids_ok_def is_inside_def)
  show "getitem (air (land q d t)) q = Some (landed q d t)"
    using wa assms(2) by (simp add: land_air getitem_setitem_same)
  show "getitem (ground (land q d t)) q =
           (case getitem (ground t) q of
              None \<Rightarrow> None
            | Some (GPacket p) \<Rightarrow> map_option GPacket (packet d)
            | Some (GDropzone z) \<Rightarrow>
                (case packet d of
                   None \<Rightarrow> Some (GDropzone z)
                 | Some pk \<Rightarrow> if Packet_index pk = Dropzone_index z then None else Some (GDropzone z)))"
    using wg ig by (auto simp: land_def getitem_setitem_same split: option.splits ground_object.splits)
  show "rewards (land q d t) (index d) =
           (if deliveries (ground t) q d = [] then rewards t (index d) else Some 1)"
    by (simp add: land_def deliveries_def split: option.splits ground_object.splits)
qed

lemma land_local:
  assumes "grids_ok t" "is_inside (air t) q" "grids_ok t2" "is_inside (air t2) q"
    and "getitem (ground t2) q = getitem (ground t) q"
    and "rewards t2 (index d) = rewards t (index d)"
  shows "getitem (air (land q d t2)) q = getitem (air (land q d t)) q"
    and "getitem (ground (land q d t2)) q = getitem (ground (land q d t)) q"
    and "rewards (land q d t2) (index d) = rewards (land q d t) (index d)"
    and "deliveries (ground t2) q d = deliveries (ground t) q d"
  using assms(5,6)
  by (simp_all add: land_at [OF assms(1,2)] land_at [OF assms(3,4)] landed_def deliveries_def)

lemma resolve_singleton: "resolve (q, [d]) t = Inr (land q d t)"
  by (simp add: resolve_def)

lemma resolve_group: "length ds > 1 \<Longrightarrow> resolve (q, ds) t = Inr (collide ds t)"
  by (simp add: resolve_def)

lemma key_fresh: "fst e \<notin> fst ` set es \<Longrightarrow> e' \<in> set es \<Longrightarrow> fst e' \<noteq> fst e"
  by (metis imageI)

lemma resolve_loop_landing:
  "for_each resolve es t = Inr t' \<Longrightarrow> entries_ok es t \<Longrightarrow> (q, [d]) \<in> set es \<Longrightarrow>
   distinct (map index (drones_of es)) \<Longrightarrow>
     getitem (air t') q = getitem (air (land q d t)) q \<and>
     getitem (ground t') q = getitem (ground (land q d t)) q \<and>
     rewards t' (index d) = rewards (land q d t) (index d)"
proof (induction es arbitrary: t)
  case Nil
  then show ?case by simp
next
  case (Cons e es)
  from Cons.prems(1) obtain t1 where r: "resolve e t = Inr t1"
    and rest: "for_each resolve es t1 = Inr t'" by (auto split: sum.splits)
  note ok1 = resolve_entries_ok [OF r Cons.prems(2)]
  have ok: "grids_ok t" and ins: "is_inside (air t) (fst e)" and keys: "fst e \<notin> fst ` set es"
    using Cons.prems(2) by (simp_all add: entries_ok_def)
  have gok1: "grids_ok t1" using ok1 by (simp add: entries_ok_def)
  have sh: "is_inside (air t1) = is_inside (air t)"
    using resolve_loop_misc [of "[e]" t t1] r by (simp add: is_inside_def fun_eq_iff)
  have di: "distinct (map index (drones_of es))" and dis: "index ` set (snd e) \<inter> index ` set (drones_of es) = {}"
    using Cons.prems(4) by (auto simp: drones_of_def)
  note frame = resolve_loop_frame [OF rest ok1]
  show ?case
  proof (cases "e = (q, [d])")
    case True
    then have t1: "t1 = land q d t" using r by (simp add: resolve_singleton)
    have q: "is_inside (air t1) q \<and> q \<notin> fst ` set es" using ins keys True by (simp add: sh)
    have i: "index d \<notin> index ` set (drones_of es)" using dis True by auto
    show ?thesis
      using frame [THEN conjunct1, rule_format, OF q] frame [THEN conjunct2, rule_format, OF i]
      by (simp add: t1)
  next
    case False
    then have mem: "(q, [d]) \<in> set es" using Cons.prems(3) by simp
    then have qe: "q \<noteq> fst e" using key_fresh [OF keys, of "(q, [d])"] by simp
    have qin: "is_inside (air t) q" using ok1 mem by (auto simp: entries_ok_def sh)
    have "d \<in> set (drones_of es)" using mem by (force simp: drones_of_def)
    then have i: "index d \<notin> index ` set (snd e)" using dis by auto
    note fr = resolve_frame [OF r ok ins]
    have "getitem (ground t1) q = getitem (ground t) q" "rewards t1 (index d) = rewards t (index d)"
      using fr(2) [OF qin qe] fr(3) [OF i] by simp_all
    then show ?thesis
      using Cons.IH [OF rest ok1 mem di] land_local [OF ok qin gok1, of d] qin
      by (simp add: sh)
  qed
qed

lemma resolve_loop_collision:
  "for_each resolve es t = Inr t' \<Longrightarrow> entries_ok es t \<Longrightarrow> (q, ds) \<in> set es \<Longrightarrow>
   length ds > 1 \<Longrightarrow> d \<in> set ds \<Longrightarrow> distinct (map index (drones_of es)) \<Longrightarrow>
     rewards t' (index d) = Some (- 1)"
proof (induction es arbitrary: t)
  case Nil
  then show ?case by simp
next
  case (Cons e es)
  from Cons.prems(1) obtain t1 where r: "resolve e t = Inr t1"
    and rest: "for_each resolve es t1 = Inr t'" by (auto split: sum.splits)
  note ok1 = resolve_entries_ok [OF r Cons.prems(2)]
  have di: "distinct (map index (drones_of es))" and dis: "index ` set (snd e) \<inter> index ` set (drones_of es) = {}"
    using Cons.prems(6) by (auto simp: drones_of_def)
  show ?case
  proof (cases "e = (q, ds)")
    case True
    then have t1: "t1 = collide ds t" using r Cons.prems(4) by (simp add: resolve_group)
    have i: "index d \<notin> index ` set (drones_of es)" using dis True Cons.prems(5) by auto
    have "rewards t1 (index d) = Some (- 1)"
      using Cons.prems(5) by (simp add: t1 fold_rewards_member)
    then show ?thesis
      using resolve_loop_frame [OF rest ok1, THEN conjunct2, rule_format, OF i] by simp
  next
    case False
    then have "(q, ds) \<in> set es" using Cons.prems(3) by simp
    then show ?thesis using Cons.IH [OF rest ok1 _ Cons.prems(4,5) di] by simp
  qed
qed

lemma resolve_loop_respawns:
  "for_each resolve es t = Inr t' \<Longrightarrow> entries_ok es t \<Longrightarrow>
     air_respawns t' = air_respawns t @ map (\<lambda>d. d\<lparr>packet := None\<rparr>) (colliding es) \<and>
     ground_respawns t' = ground_respawns t @ concat (map (scheduled (ground t)) es)"
proof (induction es arbitrary: t)
  case Nil
  then show ?case by (simp add: colliding_def)
next
  case (Cons e es)
  from Cons.prems(1) obtain t1 where r: "resolve e t = Inr t1"
    and rest: "for_each resolve es t1 = Inr t'" by (auto split: sum.splits)
  note ok1 = resolve_entries_ok [OF r Cons.prems(2)]
  have ok: "grids_ok t" and ins: "is_inside (air t) (fst e)" and keys: "fst e \<notin> fst ` set es"
    using Cons.prems(2) by (simp_all add: entries_ok_def)
  have same: "scheduled (ground t1) e' = scheduled (ground t) e'" if e': "e' \<in> set es" for e'
  proof -
    have "fst e' \<noteq> fst e" using keys e' by (rule key_fresh)
    moreover have "is_inside (air t) (fst e')" using Cons.prems(2) e' by (simp add: entries_ok_def)
    ultimately have "getitem (ground t1) (fst e') = getitem (ground t) (fst e')"
      using resolve_frame(2) [OF r ok ins] by simp
    then show ?thesis by (simp add: scheduled_def deliveries_def split: list.splits)
  qed
  then have maps: "map (scheduled (ground t1)) es = map (scheduled (ground t)) es" by simp
  from r have "air_respawns t1 = air_respawns t @ map (\<lambda>d. d\<lparr>packet := None\<rparr>) (colliding [e]) \<and>
     ground_respawns t1 = ground_respawns t @ scheduled (ground t) e"
    by (cases rule: resolve_cases)
      (simp_all add: colliding_def scheduled_def land_ground_respawns_eq)
  then show ?case using Cons.IH [OF rest ok1] by (simp add: maps colliding_def)
qed

lemma get_objects_distinct': "distinct (get_objects g)"
  using get_objects_distinct [of g] by (simp add: distinct_map)

lemma filter_single:
  assumes "distinct xs" and "x \<in> set xs" and "P x" and "\<forall>y \<in> set xs. P y \<longrightarrow> y = x"
  shows "filter P xs = [x]"
  using assms
proof (induction xs)
  case Nil
  then show ?case by simp
next
  case (Cons a xs)
  have all: "\<And>y. y \<in> set xs \<Longrightarrow> P y \<Longrightarrow> y = x" using Cons.prems(4) by simp
  show ?case
  proof (cases "a = x")
    case True
    then have nx: "x \<notin> set xs" using Cons.prems(1) by simp
    have "\<not> P y" if "y \<in> set xs" for y using all [OF that] that nx by blast
    then have "filter P xs = []" by (simp only: filter_empty_conv) blast
    then show ?thesis using True Cons.prems(3) by simp
  next
    case False
    then have "\<not> P a" using Cons.prems(4) by fastforce
    moreover have "x \<in> set xs" using False Cons.prems(2) by simp
    moreover have "distinct xs" using Cons.prems(1) by simp
    ultimately show ?thesis using Cons.IH [OF _ _ Cons.prems(3)] all by simp
  qed
qed

lemma two_members_length:
  assumes "distinct xs" "x \<in> set xs" "y \<in> set xs" "x \<noteq> y"
  shows "1 < length xs"
proof -
  have "card {x, y} \<le> card (set xs)" using assms(2,3) by (intro card_mono) simp_all
  then show ?thesis using assms(1,4) by (simp add: distinct_card)
qed

lemma survivors_filter:
  "map fst (filter (\<lambda>dq. snd dq = q) (survivors actions g dps))
     = map fst (filter (\<lambda>dp. heading actions g dp = Some q) dps)"
  by (induction dps) (auto simp: survivors_Cons survivors_def map_filter_Nil split: option.splits)

lemma survivors_indices_subset:
  "mset (map (\<lambda>dq. index (fst dq)) (survivors actions g dps)) \<subseteq># mset (map (\<lambda>dp. index (fst dp)) dps)"
proof (induction dps)
  case Nil
  then show ?case by (simp add: survivors_def map_filter_Nil)
next
  case (Cons dp dps)
  show ?case
  proof (cases "heading actions g dp")
    case None
    then show ?thesis using Cons.IH
      by (auto simp: survivors_Cons subseteq_mset_def le_SucI)
  next
    case (Some q)
    then show ?thesis using Cons.IH by (simp add: survivors_Cons)
  qed
qed

lemma distinct_count_le: "distinct xs \<longleftrightarrow> (\<forall>a. count (mset xs) a \<le> 1)"
proof (induction xs)
  case Nil
  then show ?case by simp
next
  case (Cons x xs)
  show ?case
  proof
    assume d: "distinct (x # xs)"
    then have "count (mset xs) x = 0" by (simp add: count_eq_zero_iff)
    then show "\<forall>a. count (mset (x # xs)) a \<le> 1" using d Cons.IH by simp
  next
    assume c: "\<forall>a. count (mset (x # xs)) a \<le> 1"
    have "count (mset (x # xs)) x \<le> 1" using c by blast
    then have z: "count (mset xs) x = 0" by simp
    have "count (mset xs) a \<le> 1" for a
    proof -
      have "count (mset xs) a \<le> count (mset (x # xs)) a" by simp
      also have "\<dots> \<le> 1" using c by blast
      finally show ?thesis .
    qed
    then show "distinct (x # xs)" using Cons.IH z by (simp add: count_eq_zero_iff)
  qed
qed

lemma distinct_submset: "mset xs \<subseteq># mset ys \<Longrightarrow> distinct ys \<Longrightarrow> distinct xs"
  unfolding distinct_count_le by (meson mset_subset_eq_count le_trans)

lemma drones_of_grouped_distinct:
  assumes "distinct (map (\<lambda>dp. index (fst dp)) dps)"
  shows "distinct (map index (drones_of (grouped (survivors actions g dps) [])))"
proof -
  have "mset (map index (drones_of (grouped (survivors actions g dps) [])))
      = image_mset index (mset (map fst (survivors actions g dps)))"
    by (simp add: drones_of_def mset_concat_grouped)
  also have "\<dots> = mset (map (\<lambda>dq. index (fst dq)) (survivors actions g dps))"
    by (simp add: image_mset.compositionality comp_def)
  finally have "mset (map index (drones_of (grouped (survivors actions g dps) [])))
      \<subseteq># mset (map (\<lambda>dp. index (fst dp)) dps)"
    using survivors_indices_subset [of actions g dps] by simp
  then show ?thesis using assms by (rule distinct_submset)
qed

lemma single_entry:
  assumes mem: "(d, p) \<in> set dps" and dist: "distinct dps"
    and hd: "heading actions g (d, p) = Some q"
    and alone: "\<forall>dp \<in> set dps. heading actions g dp = Some q \<longrightarrow> dp = (d, p)"
  shows "(q, [d]) \<in> set (grouped (survivors actions g dps) [])"
proof -
  have "(d, q) \<in> set (survivors actions g dps)"
    using survivors_heading [of d q actions g dps] mem hd by blast
  then have "(q, map fst (filter (\<lambda>dq. snd dq = q) (survivors actions g dps)))
      \<in> set (grouped (survivors actions g dps) [])" by (rule grouped_has_entry)
  moreover have "filter (\<lambda>dp. heading actions g dp = Some q) dps = [(d, p)]"
    using dist mem hd alone by (rule filter_single)
  ultimately show ?thesis by (simp add: survivors_filter)
qed

lemma crowded_entry:
  assumes m1: "(d1, p1) \<in> set dps" and m2: "(d2, p2) \<in> set dps" and ne: "(d1, p1) \<noteq> (d2, p2)"
    and dist: "distinct dps"
    and h1: "heading actions g (d1, p1) = Some q" and h2: "heading actions g (d2, p2) = Some q"
  shows "\<exists>ds. (q, ds) \<in> set (grouped (survivors actions g dps) []) \<and> 1 < length ds \<and>
           d1 \<in> set ds \<and> d2 \<in> set ds"
proof -
  let ?f = "filter (\<lambda>dp. heading actions g dp = Some q) dps"
  have "(d1, q) \<in> set (survivors actions g dps)"
    using survivors_heading [of d1 q actions g dps] m1 h1 by blast
  then have e: "(q, map fst ?f) \<in> set (grouped (survivors actions g dps) [])"
    using grouped_has_entry [of d1 q "survivors actions g dps"] by (simp add: survivors_filter)
  have in1: "(d1, p1) \<in> set ?f" and in2: "(d2, p2) \<in> set ?f" using m1 m2 h1 h2 by simp_all
  have "1 < length ?f" using two_members_length [OF _ in1 in2 ne] dist by simp
  moreover have "fst (d1, p1) \<in> fst ` set ?f" "fst (d2, p2) \<in> fst ` set ?f"
    using in1 in2 by (blast intro: imageI)+
  then have "d1 \<in> set (map fst ?f)" "d2 \<in> set (map fst ?f)"
    by (simp_all del: set_filter)
  ultimately show ?thesis using e by (intro exI [of _ "map fst ?f"]) simp
qed

lemma crashed_index:
  assumes mem: "(d, p) \<in> set dps" and di: "distinct (map (\<lambda>dp. index (fst dp)) dps)"
    and hd: "heading actions g (d, p) = Some q"
  shows "index d \<notin> index ` set (crashed actions g dps)"
proof
  assume "index d \<in> index ` set (crashed actions g dps)"
  then obtain dp where dp: "dp \<in> set dps" "heading actions g dp = None" "index (fst dp) = index d"
    by (auto simp: crashed_def)
  have "inj_on (\<lambda>dp. index (fst dp)) (set dps)" using di by (simp add: distinct_map)
  then have "dp = (d, p)" using inj_onD [of "\<lambda>dp. index (fst dp)" "set dps" dp "(d, p)"] dp(1,3) mem
    by simp
  then show False using dp(2) hd by simp
qed

lemma heading_Some_iff:
  "heading actions g (d, p) = Some q \<longleftrightarrow> new_position actions d p = Inr q \<and> is_inside g q"
  by (auto simp: heading_def split: sum.splits if_splits)

lemma set_packets_of: "set (packets_of ds) = {GPacket pk | pk d. d \<in> set ds \<and> packet d = Some pk}"
  by (auto simp: packets_of_def set_map_filter)

lemma colliding_member:
  "d \<in> set (colliding es) \<longleftrightarrow> (\<exists>q ds. (q, ds) \<in> set es \<and> 1 < length ds \<and> d \<in> set ds)"
  by (auto simp: colliding_def)

lemma concat_map_member:
  assumes "e \<in> set es"
  shows "\<exists>xs ys. concat (map f es) = xs @ f e @ ys"
proof -
  from assms obtain pre post where "es = pre @ e # post" by (auto simp: in_set_conv_decomp)
  then have "concat (map f es) = concat (map f pre) @ f e @ concat (map f post)" by simp
  then show ?thesis by blast
qed

lemma scheduled_single: "scheduled g (q, [d]) = deliveries g q d"
  by (simp add: scheduled_def)

lemma scheduled_group: "1 < length ds \<Longrightarrow> scheduled g (q, ds) = packets_of ds"
  by (simp add: scheduled_def)

lemma move_drones_context:
  assumes ok: "grids_ok s" and mv: "move_drones s actions = Inr t"
  obtains t1 where
    "for_each resolve (new_positions t1) t1 = Inr t"
    "entries_ok (new_positions t1) t1"
    "new_positions t1 = grouped (survivors actions (air s) (get_objects (air s))) []"
    "ground t1 = ground s" "grids_ok t1" "is_inside (air t1) = is_inside (air s)"
    "air_respawns t1 = map (\<lambda>d. d\<lparr>packet := None\<rparr>) (crashed actions (air s) (get_objects (air s)))"
    "ground_respawns t1 = packets_of (crashed actions (air s) (get_objects (air s)))"
    "rewards t1 = fold (\<lambda>d rw. rw(index d \<mapsto> - 1)) (crashed actions (air s) (get_objects (air s)))
                        (\<lambda>i. map_option (\<lambda>_. 0) (actions i))"
proof -
  from mv obtain t1 where nav: "for_each (navigate actions) (get_objects (air s)) (initial_tick s actions) = Inr t1"
    and res: "for_each resolve (new_positions t1) t1 = Inr t" by (rule move_drones_split)
  note an = after_navigate [OF ok nav]
  have "is_inside (air t1) = is_inside (air s)" using an(2) by (simp add: is_inside_def fun_eq_iff)
  then show ?thesis using that [of t1] res an by simp
qed

lemma survivor_lands:
  assumes ok: "grids_ok s" and di: "distinct_indices s" and mv: "move_drones s actions = Inr t"
    and at: "is_inside (air s) p" "getitem (air s) p = Some d"
    and np: "new_position actions d p = Inr q" and inq: "is_inside (air s) q"
    and alone: "\<forall>p' d'. is_inside (air s) p' \<and> getitem (air s) p' = Some d' \<and>
                  new_position actions d' p' = Inr q \<longrightarrow> p' = p"
  shows "getitem (air t) q = Some (landed q d s)"
    and "getitem (ground t) q = getitem (ground (land q d (initial_tick s actions))) q"
    and "rewards t (index d) =
           (if deliveries (ground s) q d = [] then map_option (\<lambda>_. 0) (actions (index d)) else Some 1)"
    and "\<exists>xs ys. ground_respawns t = xs @ deliveries (ground s) q d @ ys"
    and "index d \<notin> index ` set (air_respawns t)"
proof -
  let ?dps = "get_objects (air s)"
  from ok mv obtain t1 where
    res: "for_each resolve (new_positions t1) t1 = Inr t" and
    eok: "entries_ok (new_positions t1) t1" and
    npos: "new_positions t1 = grouped (survivors actions (air s) ?dps) []" and
    g1: "ground t1 = ground s" and ok1: "grids_ok t1" and ins1: "is_inside (air t1) = is_inside (air s)" and
    ar1: "air_respawns t1 = map (\<lambda>d. d\<lparr>packet := None\<rparr>) (crashed actions (air s) ?dps)" and
    gr1: "ground_respawns t1 = packets_of (crashed actions (air s) ?dps)" and
    rw1: "rewards t1 = fold (\<lambda>d rw. rw(index d \<mapsto> - 1)) (crashed actions (air s) ?dps)
                        (\<lambda>i. map_option (\<lambda>_. 0) (actions i))"
    by (rule move_drones_context)
  have mem: "(d, p) \<in> set ?dps" using at by (simp add: get_objects_iff)
  have hd: "heading actions (air s) (d, p) = Some q" using np inq by (simp add: heading_Some_iff)
  have alone': "\<forall>dp \<in> set ?dps. heading actions (air s) dp = Some q \<longrightarrow> dp = (d, p)"
  proof (intro ballI impI)
    fix dp assume dp: "dp \<in> set ?dps" and h: "heading actions (air s) dp = Some q"
    have a: "is_inside (air s) (snd dp) \<and> getitem (air s) (snd dp) = Some (fst dp)"
      using dp get_objects_iff [of "fst dp" "snd dp" "air s"] by simp
    have "new_position actions (fst dp) (snd dp) = Inr q"
      using h heading_Some_iff [of actions "air s" "fst dp" "snd dp" q] by simp
    then have "snd dp = p" using alone a by blast
    then show "dp = (d, p)" using a at(2) by (cases dp) simp
  qed
  have didx: "distinct (map (\<lambda>dp. index (fst dp)) ?dps)" using di by (simp add: distinct_indices_def)
  have entry: "(q, [d]) \<in> set (new_positions t1)"
    unfolding npos using mem get_objects_distinct' hd alone' by (rule single_entry)
  have dist: "distinct (map index (drones_of (new_positions t1)))"
    unfolding npos using didx by (rule drones_of_grouped_distinct)
  note ll = resolve_loop_landing [OF res eok entry dist]
  have inq1: "is_inside (air t1) q" using inq by (simp add: ins1)
  note la = land_at [OF ok1 inq1, of d]
  have landed1: "landed q d t1 = landed q d s" by (simp add: landed_def g1)
  have notcrashed: "index d \<notin> index ` set (crashed actions (air s) ?dps)"
    using mem didx hd by (rule crashed_index)
  have rwd: "rewards t1 (index d) = map_option (\<lambda>_. 0) (actions (index d))"
    unfolding rw1 by (rule fold_rewards_other [OF notcrashed])
  show "getitem (air t) q = Some (landed q d s)" using ll la(1) by (simp add: landed1)
  have ok0: "grids_ok (initial_tick s actions)" using ok by (simp add: grids_ok_def)
  show "getitem (ground t) q = getitem (ground (land q d (initial_tick s actions))) q"
    using ll land_at(2) [OF ok0, of q d] la(2) inq by (simp add: g1)
  show "rewards t (index d) =
           (if deliveries (ground s) q d = [] then map_option (\<lambda>_. 0) (actions (index d)) else Some 1)"
    using ll la(3) by (simp add: g1 rwd)
  note rr = resolve_loop_respawns [OF res eok]
  from concat_map_member [OF entry, of "scheduled (ground t1)"]
  obtain xs ys where "concat (map (scheduled (ground t1)) (new_positions t1))
      = xs @ deliveries (ground s) q d @ ys" by (auto simp: scheduled_single g1)
  then have "ground_respawns t = (ground_respawns t1 @ xs) @ deliveries (ground s) q d @ ys"
    using rr by simp
  then show "\<exists>xs ys. ground_respawns t = xs @ deliveries (ground s) q d @ ys" by blast
  show "index d \<notin> index ` set (air_respawns t)"
  proof
    assume "index d \<in> index ` set (air_respawns t)"
    then have "index d \<in> index ` set (crashed actions (air s) ?dps) \<or>
        index d \<in> index ` set (colliding (new_positions t1))"
      using rr by (auto simp: ar1 image_iff)
    then have "index d \<in> index ` set (colliding (new_positions t1))" using notcrashed by simp
    then obtain d' q' ds where e': "(q', ds) \<in> set (new_positions t1)" "1 < length ds"
      "d' \<in> set ds" "index d' = index d" by (auto simp: colliding_member)
    have ds: "ds = map fst (filter (\<lambda>dp. heading actions (air s) dp = Some q') ?dps)"
      using grouped_entry(1) [of q' ds "survivors actions (air s) ?dps"] e'(1)
      by (simp add: npos survivors_filter)
    then obtain dp where dp: "dp \<in> set ?dps" "heading actions (air s) dp = Some q'" "fst dp = d'"
      using e'(3) by auto
    have "inj_on (\<lambda>dp. index (fst dp)) (set ?dps)" using didx by (simp add: distinct_map)
    then have "dp = (d, p)"
      using inj_onD [of "\<lambda>dp. index (fst dp)" "set ?dps" dp "(d, p)"] dp(1,3) e'(4) mem by simp
    then have "q' = q" using dp(2) hd by simp
    then have "ds = [d]"
      using ds filter_single [OF get_objects_distinct' mem hd alone'] by simp
    then show False using e'(2) by simp
  qed
qed

lemma collision_crashes:
  assumes ok: "grids_ok s" and di: "distinct_indices s" and mv: "move_drones s actions = Inr t"
    and at1: "is_inside (air s) p1" "getitem (air s) p1 = Some d1"
    and at2: "is_inside (air s) p2" "getitem (air s) p2 = Some d2" and ne: "p1 \<noteq> p2"
    and np1: "new_position actions d1 p1 = Inr q" and np2: "new_position actions d2 p2 = Inr q"
    and inq: "is_inside (air s) q"
  shows "rewards t (index d1) = Some (- 1)"
    and "d1\<lparr>packet := None\<rparr> \<in> set (air_respawns t)"
    and "set (packets_of [d1]) \<subseteq> set (ground_respawns t)"
proof -
  let ?dps = "get_objects (air s)"
  from ok mv obtain t1 where
    res: "for_each resolve (new_positions t1) t1 = Inr t" and
    eok: "entries_ok (new_positions t1) t1" and
    npos: "new_positions t1 = grouped (survivors actions (air s) ?dps) []"
    by (rule move_drones_context)
  have m1: "(d1, p1) \<in> set ?dps" and m2: "(d2, p2) \<in> set ?dps"
    using at1 at2 by (simp_all add: get_objects_iff)
  have h1: "heading actions (air s) (d1, p1) = Some q" and h2: "heading actions (air s) (d2, p2) = Some q"
    using np1 np2 inq by (simp_all add: heading_Some_iff)
  have ne': "(d1, p1) \<noteq> (d2, p2)" using ne by simp
  from crowded_entry [OF m1 m2 ne' get_objects_distinct' h1 h2]
  obtain ds where e: "(q, ds) \<in> set (new_positions t1)" "1 < length ds" "d1 \<in> set ds"
    by (auto simp: npos)
  have didx: "distinct (map (\<lambda>dp. index (fst dp)) ?dps)" using di by (simp add: distinct_indices_def)
  have dist: "distinct (map index (drones_of (new_positions t1)))"
    unfolding npos using didx by (rule drones_of_grouped_distinct)
  show "rewards t (index d1) = Some (- 1)"
    using resolve_loop_collision [OF res eok e dist] .
  note rr = resolve_loop_respawns [OF res eok]
  have "d1 \<in> set (colliding (new_positions t1))"
    using e colliding_member [of d1 "new_positions t1"] by blast
  then show "d1\<lparr>packet := None\<rparr> \<in> set (air_respawns t)" using rr by simp
  from concat_map_member [OF e(1), of "scheduled (ground t1)"]
  obtain xs ys where "concat (map (scheduled (ground t1)) (new_positions t1)) = xs @ packets_of ds @ ys"
    by (auto simp: scheduled_group [OF e(2)])
  then have "set (packets_of ds) \<subseteq> set (ground_respawns t)" using rr by auto
  moreover have "set (packets_of [d1]) \<subseteq> set (packets_of ds)" using e(3) by (auto simp: set_packets_of)
  ultimately show "set (packets_of [d1]) \<subseteq> set (ground_respawns t)" by blast
qed

lemma index_after_pick [simp]: "index (after_pick c d) = index d"
  by (simp add: after_pick_def split: option.splits ground_object.splits)

lemma pick_packet_at:
  assumes "pick_packet p s = Inr s'" and ok: "grids_ok s" and ins: "is_inside (air s) p"
    and d: "getitem (air s) p = Some d"
  shows "getitem (air s') p = Some (after_pick (getitem (ground s) p) d)"
    and "getitem (ground s') p = ground_after_pick (getitem (ground s) p)"
proof -
  have wa: "wf_grid (air s)" and wg: "wf_grid (ground s)" and ig: "is_inside (ground s) p"
    using ok ins by (simp_all add: grids_ok_def is_inside_def)
  from assms(1) show "getitem (air s') p = Some (after_pick (getitem (ground s) p) d)"
  proof (cases rule: pick_packet_cases)
    case nothing
    then show ?thesis using d by (auto simp: after_pick_def split: option.splits ground_object.splits)
  next
    case (picked pk d')
    then show ?thesis using d wa ins by (simp add: after_pick_def getitem_setitem_same)
  qed
  from assms(1) show "getitem (ground s') p = ground_after_pick (getitem (ground s) p)"
  proof (cases rule: pick_packet_cases)
    case nothing
    then show ?thesis by (auto simp: ground_after_pick_def split: option.splits ground_object.splits)
  next
    case (picked pk d')
    then show ?thesis using wg ig by (simp add: ground_after_pick_def getitem_setitem_same)
  qed
qed

lemma pick_loop_cells:
  "respawned_ok ps s \<Longrightarrow> for_each pick_packet ps s = Inr s' \<Longrightarrow>
     (\<forall>q. is_inside (air s) q \<and> q \<notin> set ps \<longrightarrow>
        getitem (air s') q = getitem (air s) q \<and> getitem (ground s') q = getitem (ground s) q) \<and>
     (\<forall>p d. p \<in> set ps \<and> getitem (air s) p = Some d \<longrightarrow>
        getitem (air s') p = Some (after_pick (getitem (ground s) p) d) \<and>
        getitem (ground s') p = ground_after_pick (getitem (ground s) p))"
proof (induction ps arbitrary: s)
  case Nil
  then show ?case by simp
next
  case (Cons a ps)
  from Cons.prems(2) obtain s1 where p1: "pick_packet a s = Inr s1"
    and rest: "for_each pick_packet ps s1 = Inr s'" by (auto split: sum.splits)
  note ok1 = pick_packet_ok [OF p1 Cons.prems(1)]
  have ok: "grids_ok s" and ins: "is_inside (air s) a" and na: "a \<notin> set ps"
    using Cons.prems(1) by (simp_all add: respawned_ok_def)
  have sh: "is_inside (air s1) = is_inside (air s)"
    using pick_packet_shape(1) [OF p1] by (simp add: is_inside_def fun_eq_iff)
  note IH = Cons.IH [OF ok1 rest]
  note fr = pick_packet_frame [OF p1 ok ins]
  show ?case
  proof (intro conjI allI impI)
    fix q assume q: "is_inside (air s) q \<and> q \<notin> set (a # ps)"
    then have q1: "is_inside (air s1) q \<and> q \<notin> set ps" and qa: "q \<noteq> a" by (simp_all add: sh)
    show "getitem (air s') q = getitem (air s) q" "getitem (ground s') q = getitem (ground s) q"
      using IH [THEN conjunct1, rule_format, OF q1] fr [of q] q qa by simp_all
  next
    fix p d assume pd: "p \<in> set (a # ps) \<and> getitem (air s) p = Some d"
    show "getitem (air s') p = Some (after_pick (getitem (ground s) p) d)"
      "getitem (ground s') p = ground_after_pick (getitem (ground s) p)"
    proof -
      have "getitem (air s') p = Some (after_pick (getitem (ground s) p) d) \<and>
            getitem (ground s') p = ground_after_pick (getitem (ground s) p)"
      proof (cases "p = a")
        case True
        have q1: "is_inside (air s1) a \<and> a \<notin> set ps" using ins na by (simp add: sh)
        show ?thesis
          using IH [THEN conjunct1, rule_format, OF q1] pick_packet_at [OF p1 ok ins, of d] pd True
          by simp
      next
        case False
        then have mem: "p \<in> set ps" using pd by simp
        have pin: "is_inside (air s) p" using ok1 mem by (simp add: respawned_ok_def sh)
        have "getitem (air s1) p = Some d" "getitem (ground s1) p = getitem (ground s) p"
          using fr [OF pin False] pd by simp_all
        then show ?thesis using IH [THEN conjunct2, rule_format, of p d] mem by simp
      qed
      then show "getitem (air s') p = Some (after_pick (getitem (ground s) p) d)"
      "getitem (ground s') p = ground_after_pick (getitem (ground s) p)" by simp_all
    qed
  qed
qed

lemma dones_member:
  fixes ds :: "Drone list"
  shows "i \<in> index ` set ds \<Longrightarrow>
     fold (\<lambda>drone dones. dones(index drone \<mapsto> True)) ds dn0 i = Some True"
  by (rule fold_rewards_member)

lemma dones_other:
  fixes ds :: "Drone list"
  shows "i \<notin> index ` set ds \<Longrightarrow>
     fold (\<lambda>drone dones. dones(index drone \<mapsto> True)) ds dn0 i = dn0 i"
  by (rule fold_rewards_other)

lemma respawn_effect:
  assumes ok: "grids_ok t" and none: "\<forall>d \<in> set (air_respawns t). packet d = None"
    and rs: "respawn t actions r = Inr (out, r')"
  obtains g' gps r1 a' ps where
    "spawn (ground t) (ground_respawns t) r = Inr (g', gps, r1)"
    "spawn (air t) (air_respawns t) r1 = Inr (a', ps, r')"
    "pick_packets_after_respawn ps \<lparr>air = a', ground = g'\<rparr> = Inr (grids out)"
    "respawned_ok ps \<lparr>air = a', ground = g'\<rparr>"
    "\<forall>q. is_inside (air t) q \<and> q \<notin> set ps \<longrightarrow>
        getitem (air (grids out)) q = getitem (air t) q \<and> getitem (ground (grids out)) q = getitem g' q"
    "\<forall>i < length ps.
        getitem (air (grids out)) (ps ! i) = Some (after_pick (getitem g' (ps ! i)) (air_respawns t ! i)) \<and>
        getitem (ground (grids out)) (ps ! i) = ground_after_pick (getitem g' (ps ! i))"
    "length ps = length (air_respawns t)" "distinct ps" "set ps \<subseteq> empty_cells (air t)"
    "info_air_respawns (out_info out) = List.map_filter (getitem (air (grids out))) ps"
proof -
  from rs obtain g' gps r1 a' ps where
    sg: "spawn (ground t) (ground_respawns t) r = Inr (g', gps, r1)" and
    sa: "spawn (air t) (air_respawns t) r1 = Inr (a', ps, r')" and
    pk: "pick_packets_after_respawn ps \<lparr>air = a', ground = g'\<rparr> = Inr (grids out)" and
    ia: "info_air_respawns (out_info out) = List.map_filter (getitem (air (grids out))) ps"
    by (rule respawn_split)
  note rok = respawned_ok_after_spawn [OF ok none sg sa]
  have wa: "wf_grid (air t)" using ok by (simp add: grids_ok_def)
  note ga = spawn_getitem [OF wa sa] and ra = spawn_result [OF sa]
  have insa: "is_inside a' = is_inside (air t)" using ga(3) by (simp add: is_inside_def fun_eq_iff)
  note cells = pick_loop_cells [OF rok pk [unfolded pick_packets_after_respawn_def]]
  have c1: "\<forall>q. is_inside (air t) q \<and> q \<notin> set ps \<longrightarrow>
        getitem (air (grids out)) q = getitem (air t) q \<and> getitem (ground (grids out)) q = getitem g' q"
  proof (intro allI impI)
    fix q assume q: "is_inside (air t) q \<and> q \<notin> set ps"
    then have "getitem (air (grids out)) q = getitem a' q \<and> getitem (ground (grids out)) q = getitem g' q"
      using cells [THEN conjunct1, rule_format, of q] by (simp add: insa)
    then show "getitem (air (grids out)) q = getitem (air t) q \<and> getitem (ground (grids out)) q = getitem g' q"
      using ga(2) [of q] q by simp
  qed
  have c2: "\<forall>i < length ps.
        getitem (air (grids out)) (ps ! i) = Some (after_pick (getitem g' (ps ! i)) (air_respawns t ! i)) \<and>
        getitem (ground (grids out)) (ps ! i) = ground_after_pick (getitem g' (ps ! i))"
  proof (intro allI impI)
    fix i assume i: "i < length ps"
    then have "getitem a' (ps ! i) = Some (air_respawns t ! i)" using ga(1) [of i] ra(1) by simp
    then show "getitem (air (grids out)) (ps ! i) = Some (after_pick (getitem g' (ps ! i)) (air_respawns t ! i)) \<and>
        getitem (ground (grids out)) (ps ! i) = ground_after_pick (getitem g' (ps ! i))"
      using cells [THEN conjunct2, rule_format, of "ps ! i" "air_respawns t ! i"] i by simp
  qed
  show ?thesis using that [OF sg sa pk rok c1 c2 ra(1) ra(2) ra(3) ia] .
qed

lemma step_outputs:
  assumes ok: "grids_ok s" and mv: "move_drones s actions = Inr t"
    and st: "step s actions r = Inr (out, r')"
  shows "out_rewards out = rewards t"
    and "info_ground_respawns (out_info out) = ground_respawns t"
    and "out_dones out i =
           (if i \<in> index ` set (air_respawns t) then Some True
            else map_option (\<lambda>_. False) (actions i))"
    and "is_inside (air s) q \<Longrightarrow> getitem (air t) q = Some x \<Longrightarrow> getitem (air (grids out)) q = Some x"
    and "is_inside (air s) q \<Longrightarrow> getitem (air t) q = Some x \<Longrightarrow> getitem (ground t) q = Some y \<Longrightarrow>
           getitem (ground (grids out)) q = Some y"
    and "index ` set (info_air_respawns (out_info out)) = index ` set (air_respawns t)"
proof -
  have rs: "respawn t actions r = Inr (out, r')" using st mv by (simp add: step_def)
  note mp = move_drones_packets [OF ok mv]
  from rs show "out_rewards out = rewards t" by (rule respawn_split)
  from rs show "info_ground_respawns (out_info out) = ground_respawns t" by (rule respawn_split)
  from rs have "out_dones out = fold (\<lambda>drone dones. dones(index drone \<mapsto> True)) (air_respawns t)
                       (\<lambda>i. map_option (\<lambda>_. False) (actions i))" by (rule respawn_split)
  then show "out_dones out i =
           (if i \<in> index ` set (air_respawns t) then Some True
            else map_option (\<lambda>_. False) (actions i))"
    by (simp add: dones_member dones_other)
  from mp(3) mp(2) rs obtain g' gps r1 a' ps where
    sg: "spawn (ground t) (ground_respawns t) r = Inr (g', gps, r1)" and
    c1: "\<forall>q. is_inside (air t) q \<and> q \<notin> set ps \<longrightarrow>
        getitem (air (grids out)) q = getitem (air t) q \<and> getitem (ground (grids out)) q = getitem g' q" and
    c2: "\<forall>i < length ps.
        getitem (air (grids out)) (ps ! i) = Some (after_pick (getitem g' (ps ! i)) (air_respawns t ! i)) \<and>
        getitem (ground (grids out)) (ps ! i) = ground_after_pick (getitem g' (ps ! i))" and
    len: "length ps = length (air_respawns t)" and
    sub: "set ps \<subseteq> empty_cells (air t)" and
    ia: "info_air_respawns (out_info out) = List.map_filter (getitem (air (grids out))) ps"
    by (rule respawn_effect)
  have ins: "is_inside (air t) = is_inside (air s)" using mp(4) by (simp add: is_inside_def fun_eq_iff)
  have insg: "is_inside (ground t) = is_inside (air s)"
    using mp(3,4) by (simp add: grids_ok_def is_inside_def fun_eq_iff)
  have out_ps: "q \<notin> set ps" if "getitem (air t) q = Some x" for q x
    using sub that by (auto simp: empty_cells_def)
  show "is_inside (air s) q \<Longrightarrow> getitem (air t) q = Some x \<Longrightarrow> getitem (air (grids out)) q = Some x"
    using c1 [rule_format, of q] out_ps [of q x] by (simp add: ins)
  show "is_inside (air s) q \<Longrightarrow> getitem (air t) q = Some x \<Longrightarrow> getitem (ground t) q = Some y \<Longrightarrow>
           getitem (ground (grids out)) q = Some y"
  proof -
    assume a: "is_inside (air s) q" "getitem (air t) q = Some x" "getitem (ground t) q = Some y"
    have wg: "wf_grid (ground t)" using mp(3) by (simp add: grids_ok_def)
    have "q \<notin> set gps" using spawn_result(3) [OF sg] a(3) by (auto simp: empty_cells_def)
    then have "getitem g' q = getitem (ground t) q"
      using spawn_getitem(2) [OF wg sg, of q] a(1) by (simp add: insg)
    then show ?thesis using c1 [rule_format, of q] out_ps [OF a(2)] a by (simp add: ins)
  qed
  show "index ` set (info_air_respawns (out_info out)) = index ` set (air_respawns t)"
  proof (rule set_eqI, rule iffI)
    fix i assume "i \<in> index ` set (info_air_respawns (out_info out))"
    then obtain p d where p: "p \<in> set ps" "getitem (air (grids out)) p = Some d" "index d = i"
      by (auto simp: ia set_map_filter)
    then obtain k where k: "k < length ps" "ps ! k = p" by (auto simp: in_set_conv_nth)
    then have "d = after_pick (getitem g' p) (air_respawns t ! k)" using c2 p(2) by auto
    then have "i = index (air_respawns t ! k)" using p(3) by simp
    then show "i \<in> index ` set (air_respawns t)" using k(1) len by simp
  next
    fix i assume "i \<in> index ` set (air_respawns t)"
    then obtain k where k: "k < length (air_respawns t)" "index (air_respawns t ! k) = i"
      by (auto simp: in_set_conv_nth)
    then have "getitem (air (grids out)) (ps ! k) = Some (after_pick (getitem g' (ps ! k)) (air_respawns t ! k))"
      using c2 len by simp
    moreover have "ps ! k \<in> set ps" using k(1) len by simp
    ultimately have "after_pick (getitem g' (ps ! k)) (air_respawns t ! k)
        \<in> set (info_air_respawns (out_info out))"
      unfolding ia set_map_filter by blast
    then have "index (after_pick (getitem g' (ps ! k)) (air_respawns t ! k))
        \<in> index ` set (info_air_respawns (out_info out))" by (rule imageI)
    then show "i \<in> index ` set (info_air_respawns (out_info out))" using k(2) by simp
  qed
qed

lemma survives_atD:
  assumes "survives_at s actions d p q"
  shows "is_inside (air s) p" "getitem (air s) p = Some d" "new_position actions d p = Inr q"
    "is_inside (air s) q"
    "\<forall>p' d'. is_inside (air s) p' \<and> getitem (air s) p' = Some d' \<and>
                  new_position actions d' p' = Inr q \<longrightarrow> p' = p"
proof -
  show "is_inside (air s) p" "getitem (air s) p = Some d"
    using assms get_objects_iff [of d p "air s"] by (simp_all add: survives_at_def)
  show "new_position actions d p = Inr q" "is_inside (air s) q"
    using assms by (simp_all add: survives_at_def)
  show "\<forall>p' d'. is_inside (air s) p' \<and> getitem (air s) p' = Some d' \<and>
                  new_position actions d' p' = Inr q \<longrightarrow> p' = p"
  proof (intro allI impI)
    fix p' d' assume a: "is_inside (air s) p' \<and> getitem (air s) p' = Some d' \<and>
                  new_position actions d' p' = Inr q"
    then have "(d', p') \<in> set (get_objects (air s))" by (simp add: get_objects_iff)
    then have "(d', p') = (d, p)" using assms a unfolding survives_at_def by fastforce
    then show "p' = p" by simp
  qed
qed

lemma set_drones_of_grouped: "set (drones_of (grouped svs [])) = fst ` set svs"
proof -
  have "mset (drones_of (grouped svs [])) = mset (map fst svs)"
    by (simp add: drones_of_def mset_concat_grouped)
  then have "set (drones_of (grouped svs [])) = set (map fst svs)" by (rule mset_eq_setD)
  then show ?thesis by simp
qed

lemma scheduled_packets_carried:
  assumes ok: "grids_ok s" and mv: "move_drones s actions = Inr t"
    and x: "GPacket pk \<in> set (ground_respawns t)"
  shows "\<exists>d p. (d, p) \<in> set (get_objects (air s)) \<and> packet d = Some pk"
proof -
  let ?dps = "get_objects (air s)"
  from ok mv obtain t1 where
    res: "for_each resolve (new_positions t1) t1 = Inr t" and
    eok: "entries_ok (new_positions t1) t1" and
    npos: "new_positions t1 = grouped (survivors actions (air s) ?dps) []" and
    gr1: "ground_respawns t1 = packets_of (crashed actions (air s) ?dps)"
    by (rule move_drones_context)
  note rr = resolve_loop_respawns [OF res eok]
  have surv: "\<exists>p. (d, p) \<in> set ?dps" if "d \<in> set (drones_of (new_positions t1))" for d
  proof -
    from that obtain q where "(d, q) \<in> set (survivors actions (air s) ?dps)"
      unfolding npos set_drones_of_grouped by force
    then show ?thesis using survivors_heading [of d q actions "air s" ?dps] by blast
  qed
  from x rr have "GPacket pk \<in> set (packets_of (crashed actions (air s) ?dps)) \<or>
      (\<exists>e \<in> set (new_positions t1). GPacket pk \<in> set (scheduled (ground t1) e))"
    by (auto simp: gr1)
  then show ?thesis
  proof
    assume "GPacket pk \<in> set (packets_of (crashed actions (air s) ?dps))"
    then obtain d where "d \<in> set (crashed actions (air s) ?dps)" "packet d = Some pk"
      by (auto simp: set_packets_of)
    then show ?thesis by (force simp: crashed_def)
  next
    assume "\<exists>e \<in> set (new_positions t1). GPacket pk \<in> set (scheduled (ground t1) e)"
    then obtain e where e: "e \<in> set (new_positions t1)" "GPacket pk \<in> set (scheduled (ground t1) e)"
      by blast
    have "\<exists>d \<in> set (snd e). packet d = Some pk"
    proof (cases "1 < length (snd e)")
      case True
      then show ?thesis using e(2) by (auto simp: scheduled_def set_packets_of)
    next
      case False
      then obtain d0 rest where de: "snd e = d0 # rest"
        and del: "GPacket pk \<in> set (deliveries (ground t1) (fst e) d0)"
        using e(2) by (cases "snd e") (simp_all add: scheduled_def)
      have "packet d0 = Some pk"
        using del by (auto simp: deliveries_def split: option.splits ground_object.splits if_splits)
      then show ?thesis using de by simp
    qed
    then obtain d where d: "d \<in> set (snd e)" "packet d = Some pk" by blast
    then have "d \<in> set (drones_of (new_positions t1))" using e(1) by (auto simp: drones_of_def)
    then show ?thesis using surv d(2) by blast
  qed
qed

lemma Inr_projr_single: "\<not> isl x \<Longrightarrow> x = Inr (projr x)"
  by (cases x) auto

lemma respawned_reward:
  assumes ok: "grids_ok s" and di: "distinct_indices s" and mv: "move_drones s actions = Inr t"
    and d: "d \<in> set (air_respawns t)"
  shows "rewards t (index d) = Some (- 1)"
proof -
  let ?dps = "get_objects (air s)"
  from ok mv obtain t1 where
    res: "for_each resolve (new_positions t1) t1 = Inr t" and
    eok: "entries_ok (new_positions t1) t1" and
    npos: "new_positions t1 = grouped (survivors actions (air s) ?dps) []" and
    ar1: "air_respawns t1 = map (\<lambda>d. d\<lparr>packet := None\<rparr>) (crashed actions (air s) ?dps)" and
    rw1: "rewards t1 = fold (\<lambda>d rw. rw(index d \<mapsto> - 1)) (crashed actions (air s) ?dps)
                        (\<lambda>i. map_option (\<lambda>_. 0) (actions i))"
    by (rule move_drones_context)
  have didx: "distinct (map (\<lambda>dp. index (fst dp)) ?dps)" using di by (simp add: distinct_indices_def)
  have dist: "distinct (map index (drones_of (new_positions t1)))"
    unfolding npos using didx by (rule drones_of_grouped_distinct)
  note rr = resolve_loop_respawns [OF res eok]
  from d rr ar1 consider
    (out) d0 where "d0 \<in> set (crashed actions (air s) ?dps)" "index d = index d0"
  | (hit) d0 where "d0 \<in> set (colliding (new_positions t1))" "index d = index d0"
    by auto
  then show ?thesis
  proof cases
    case out
    have r1: "rewards t1 (index d0) = Some (- 1)"
      unfolding rw1 using out(1) by (intro fold_rewards_member) (rule imageI)
    have "index d0 \<notin> index ` set (drones_of (new_positions t1))"
    proof
      assume "index d0 \<in> index ` set (drones_of (new_positions t1))"
      then obtain d' q where sv: "(d', q) \<in> set (survivors actions (air s) ?dps)" and e: "index d' = index d0"
        unfolding npos set_drones_of_grouped by force
      from sv obtain p where "(d', p) \<in> set ?dps" "heading actions (air s) (d', p) = Some q"
        by (auto simp: survivors_heading)
      from crashed_index [OF this(1) didx this(2)] out(1) e show False
        by (metis imageI)
    qed
    with resolve_loop_frame [OF res eok] have "rewards t (index d0) = rewards t1 (index d0)" by blast
    with r1 out(2) show ?thesis by simp
  next
    case hit
    from hit(1) obtain q ds where "(q, ds) \<in> set (new_positions t1)" "1 < length ds" "d0 \<in> set ds"
      by (auto simp: colliding_member)
    from resolve_loop_collision [OF res eok this dist] hit(2) show ?thesis by simp
  qed
qed

lemma Inr_projr_triple:
  "\<not> isl x \<Longrightarrow> x = Inr (fst (projr x), fst (snd (projr x)), snd (snd (projr x)))"
  by (cases x) auto

lemma returned_ground_cell:
  assumes ok: "grids_ok s" and mv: "move_drones s actions = Inr t"
    and st: "step s actions r = Inr (out, r')"
    and inq: "is_inside (air s) q" and occ: "getitem (air t) q = Some x"
    and emp: "getitem (ground t) q = None"
  shows "getitem (ground (grids out)) q = None \<or>
         getitem (ground (grids out)) q \<in> Some ` set (info_ground_respawns (out_info out))"
proof -
  have rs: "respawn t actions r = Inr (out, r')" using st mv by (simp add: step_def)
  note mp = move_drones_packets [OF ok mv]
  note so = step_outputs [OF ok mv st]
  from mp(3) mp(2) rs obtain g' gps r1 a' ps where
    sg: "spawn (ground t) (ground_respawns t) r = Inr (g', gps, r1)" and
    c1: "\<forall>q. is_inside (air t) q \<and> q \<notin> set ps \<longrightarrow>
        getitem (air (grids out)) q = getitem (air t) q \<and> getitem (ground (grids out)) q = getitem g' q" and
    sub: "set ps \<subseteq> empty_cells (air t)"
    by (rule respawn_effect)
  have ins: "is_inside (air t) = is_inside (air s)" using mp(4) by (simp add: is_inside_def fun_eq_iff)
  have insg: "is_inside (ground t) = is_inside (air s)"
    using mp(3,4) by (simp add: grids_ok_def is_inside_def fun_eq_iff)
  have "q \<notin> set ps" using sub occ by (auto simp: empty_cells_def)
  then have eq: "getitem (ground (grids out)) q = getitem g' q"
    using c1 [rule_format, of q] inq by (simp add: ins)
  have wg: "wf_grid (ground t)" using mp(3) by (simp add: grids_ok_def)
  note sr = spawn_result [OF sg]
  show ?thesis
  proof (cases "q \<in> set gps")
    case False
    then have "getitem g' q = None"
      using spawn_getitem(2) [OF wg sg, of q] inq emp by (simp add: insg)
    then show ?thesis using eq by simp
  next
    case True
    then obtain j where j: "j < length gps" "gps ! j = q" by (auto simp: in_set_conv_nth)
    then have "getitem g' q = Some (ground_respawns t ! j)" "ground_respawns t ! j \<in> set (ground_respawns t)"
      using spawn_getitem(1) [OF wg sg, of j] sr(1) by auto
    then show ?thesis using eq by (simp add: so(2))
  qed
qed















section \<open>The claims\<close>

text \<open>
  C1 as stated fails twice. A drone carrying packet 1 that lands alone on Dropzone 2 delivers
  nothing: it keeps its packet, its reward stays 0, the Dropzone stays on the ground and
  nothing is scheduled for respawn. And when a delivery does complete, the ground cell need
  not be empty in the state the step returns: the ground respawn of the same step draws from
  the empty ground cells, the cell of the delivery among them, and here it puts the delivered
  packet 1 back on that very cell.
\<close>

theorem delivery_on_any_dropzone_counterexample:
  "getitem (air mismatch_state) (3, 3) = Some \<lparr>index = 1, packet = Some (Packet 1)\<rparr> \<and>
   getitem (ground mismatch_state) (3, 4) = Some (GDropzone (Dropzone 2)) \<and>
   \<not> isl (step mismatch_state fly_right_and_stay (\<lambda>n. 0)) \<and>
   getitem (air (grids (fst (projr (step mismatch_state fly_right_and_stay (\<lambda>n. 0)))))) (3, 4)
     = Some \<lparr>index = 1, packet = Some (Packet 1)\<rparr> \<and>
   out_rewards (fst (projr (step mismatch_state fly_right_and_stay (\<lambda>n. 0)))) 1 = Some 0 \<and>
   getitem (ground (grids (fst (projr (step mismatch_state fly_right_and_stay (\<lambda>n. 0)))))) (3, 4)
     = Some (GDropzone (Dropzone 2)) \<and>
   info_ground_respawns (out_info (fst (projr (step mismatch_state fly_right_and_stay (\<lambda>n. 0))))) = [] \<and>
   getitem (air redelivery_state) (0, 0) = Some \<lparr>index = 1, packet = Some (Packet 1)\<rparr> \<and>
   getitem (ground redelivery_state) (0, 1) = Some (GDropzone (Dropzone 1)) \<and>
   \<not> isl (step redelivery_state fly_right (\<lambda>n. 0)) \<and>
   getitem (air (grids (fst (projr (step redelivery_state fly_right (\<lambda>n. 0)))))) (0, 1)
     = Some \<lparr>index = 1, packet = None\<rparr> \<and>
   out_rewards (fst (projr (step redelivery_state fly_right (\<lambda>n. 0)))) 1 = Some 1 \<and>
   getitem (ground (grids (fst (projr (step redelivery_state fly_right (\<lambda>n. 0)))))) (0, 1)
     = Some (GPacket (Packet 1))"
  by (intro conjI; code_simp)

text \<open>
  C1, amended. A surviving drone that lands alone on a cell holding a Dropzone delivers only
  when it carries a packet whose index equals the index of the Dropzone: it then holds no
  packet, its reward is 1, the ground cell is empty when the respawn begins, and the delivered
  Packet and the Dropzone are scheduled for ground respawn, in this order. In the state the
  step returns, the cell holds nothing or one of the objects that the ground respawn of this
  step has put back. On a Dropzone of another index, or without a packet, landing changes
  nothing: the drone keeps what it had, its reward is the default 0 and the Dropzone stays.
\<close>

theorem delivery_needs_matching_index:
  assumes ok: "grids_ok s" and di: "distinct_indices s" and sv: "survives_at s actions d p q"
    and dz: "getitem (ground s) q = Some (GDropzone z)"
    and mv: "move_drones s actions = Inr t" and st: "step s actions r = Inr (out, r')"
  shows "(case packet d of
            Some pk \<Rightarrow>
              if Packet_index pk = Dropzone_index z
              then getitem (air (grids out)) q = Some (d\<lparr>packet := None\<rparr>) \<and>
                   out_rewards out (index d) = Some 1 \<and>
                   getitem (ground t) q = None \<and>
                   (\<exists>xs ys. info_ground_respawns (out_info out) = xs @ [GPacket pk, GDropzone z] @ ys) \<and>
                   (getitem (ground (grids out)) q = None \<or>
                    getitem (ground (grids out)) q \<in> Some ` set (info_ground_respawns (out_info out)))
              else getitem (air (grids out)) q = Some d \<and>
                   out_rewards out (index d) = map_option (\<lambda>_. 0) (actions (index d)) \<and>
                   getitem (ground (grids out)) q = Some (GDropzone z)
          | None \<Rightarrow>
              getitem (air (grids out)) q = Some d \<and>
              out_rewards out (index d) = map_option (\<lambda>_. 0) (actions (index d)) \<and>
              getitem (ground (grids out)) q = Some (GDropzone z))"
proof -
  note s = survives_atD [OF sv]
  note sl = survivor_lands [OF ok di mv s(1) s(2) s(3) s(4) s(5)]
  note so = step_outputs [OF ok mv st]
  have ok0: "grids_ok (initial_tick s actions)" using ok by (simp add: grids_ok_def)
  have g: "getitem (ground t) q =
      (case packet d of None \<Rightarrow> Some (GDropzone z)
       | Some pk \<Rightarrow> if Packet_index pk = Dropzone_index z then None else Some (GDropzone z))"
    using sl(2) land_at(2) [OF ok0, of q d] s(4) dz by simp
  have a: "getitem (air (grids out)) q = Some (landed q d s)" using so(4) [OF s(4) sl(1)] .
  show ?thesis
  proof (cases "packet d")
    case None
    then have "deliveries (ground s) q d = []" "landed q d s = d"
      using dz by (simp_all add: deliveries_def landed_def)
    then show ?thesis
      using None a sl(3) g so(5) [OF s(4) sl(1), of "GDropzone z"] by (simp add: so(1))
  next
    case (Some pk)
    show ?thesis
    proof (cases "Packet_index pk = Dropzone_index z")
      case True
      then have "deliveries (ground s) q d = [GPacket pk, GDropzone z]" "landed q d s = d\<lparr>packet := None\<rparr>"
        using dz Some by (simp_all add: deliveries_def landed_def)
      moreover have "getitem (ground t) q = None" using g Some True by simp
      note returned_ground_cell [OF ok mv st s(4) sl(1) this]
      ultimately show ?thesis
        using Some True a sl(3) sl(4) g by (simp add: so(1) so(2))
    next
      case False
      then have "deliveries (ground s) q d = []" "landed q d s = d"
        using dz Some by (simp_all add: deliveries_def landed_def)
      then show ?thesis
        using Some False a sl(3) g so(5) [OF s(4) sl(1), of "GDropzone z"] by (simp add: so(1))
    qed
  qed
qed

text \<open>The theorem at a delivery: drone 1 brings packet 1 to Dropzone 1.\<close>

theorem delivery_needs_matching_index_witness:
  "grids_ok delivery_state \<and> distinct_indices delivery_state \<and>
   survives_at delivery_state fly_right \<lparr>index = 1, packet = Some (Packet 1)\<rparr> (3, 3) (3, 4) \<and>
   getitem (ground delivery_state) (3, 4) = Some (GDropzone (Dropzone 1)) \<and>
   \<not> isl (move_drones delivery_state fly_right) \<and>
   \<not> isl (step delivery_state fly_right (\<lambda>n. 0)) \<and>
   getitem (air (grids (fst (projr (step delivery_state fly_right (\<lambda>n. 0)))))) (3, 4)
     = Some \<lparr>index = 1, packet = None\<rparr> \<and>
   out_rewards (fst (projr (step delivery_state fly_right (\<lambda>n. 0)))) 1 = Some 1 \<and>
   getitem (ground (projr (move_drones delivery_state fly_right))) (3, 4) = None \<and>
   (\<exists>xs ys. info_ground_respawns (out_info (fst (projr (step delivery_state fly_right (\<lambda>n. 0)))))
      = xs @ [GPacket (Packet 1), GDropzone (Dropzone 1)] @ ys) \<and>
   getitem (ground (grids (fst (projr (step delivery_state fly_right (\<lambda>n. 0)))))) (3, 4) = None"
proof -
  have ok: "grids_ok delivery_state" by code_simp
  have di: "distinct_indices delivery_state" by code_simp
  have sv: "survives_at delivery_state fly_right \<lparr>index = 1, packet = Some (Packet 1)\<rparr> (3, 3) (3, 4)"
    by code_simp
  have dz: "getitem (ground delivery_state) (3, 4) = Some (GDropzone (Dropzone 1))" by code_simp
  have mv: "\<not> isl (move_drones delivery_state fly_right)" by code_simp
  have st: "\<not> isl (step delivery_state fly_right (\<lambda>n. 0))" by code_simp
  have cell: "getitem (ground (grids (fst (projr (step delivery_state fly_right (\<lambda>n. 0)))))) (3, 4) = None"
    by code_simp
  show ?thesis
    using ok di sv dz mv st cell
      delivery_needs_matching_index [OF ok di sv dz Inr_projr_single [OF mv] Inr_projr [OF st]]
    by simp
qed

text \<open>
  C2. Whenever two drones that stay inside the grid head for the same cell, each of them
  crashes. A drone in such a group gets the reward -1, is marked done, is among the drones
  scheduled for air respawn, and the packet it carried, if any, is among the objects
  scheduled for ground respawn. The statement is about one member of the group, with any
  other member as the second drone, so it covers every member of a group of any size.
\<close>

theorem colliding_drones_crash:
  assumes ok: "grids_ok s" and di: "distinct_indices s"
    and at1: "is_inside (air s) p1" "getitem (air s) p1 = Some d1"
    and at2: "is_inside (air s) p2" "getitem (air s) p2 = Some d2" and ne: "p1 \<noteq> p2"
    and np1: "new_position actions d1 p1 = Inr q" and np2: "new_position actions d2 p2 = Inr q"
    and inq: "is_inside (air s) q"
    and st: "step s actions r = Inr (out, r')"
  shows "out_rewards out (index d1) = Some (- 1) \<and>
         out_dones out (index d1) = Some True \<and>
         index d1 \<in> index ` set (info_air_respawns (out_info out)) \<and>
         set (packets_of [d1]) \<subseteq> set (info_ground_respawns (out_info out))"
proof -
  from st obtain t where mv: "move_drones s actions = Inr t" by (rule step_split)
  note cc = collision_crashes [OF ok di mv at1 at2 ne np1 np2 inq]
  note so = step_outputs [OF ok mv st]
  have mem: "index d1 \<in> index ` set (air_respawns t)"
    using cc(2) by (metis imageI Drone.select_convs(1) Drone.surjective Drone.update_convs(2))
  show ?thesis using cc(1) cc(3) mem by (simp add: so(1) so(2) so(3) so(6))
qed

text \<open>The theorem at a head-on collision: drones 1 and 2 both fly to (3, 2).\<close>

theorem colliding_drones_crash_witness:
  "grids_ok collision_state \<and> distinct_indices collision_state \<and>
   is_inside (air collision_state) (3, 1) \<and>
   getitem (air collision_state) (3, 1) = Some \<lparr>index = 1, packet = Some (Packet 1)\<rparr> \<and>
   is_inside (air collision_state) (3, 3) \<and>
   getitem (air collision_state) (3, 3) = Some \<lparr>index = 2, packet = None\<rparr> \<and>
   new_position collision_actions \<lparr>index = 1, packet = Some (Packet 1)\<rparr> (3, 1) = Inr (3, 2) \<and>
   new_position collision_actions \<lparr>index = 2, packet = None\<rparr> (3, 3) = Inr (3, 2) \<and>
   is_inside (air collision_state) (3, 2) \<and>
   \<not> isl (step collision_state collision_actions (\<lambda>n. 0)) \<and>
   out_rewards (fst (projr (step collision_state collision_actions (\<lambda>n. 0)))) 1 = Some (- 1) \<and>
   out_dones (fst (projr (step collision_state collision_actions (\<lambda>n. 0)))) 1 = Some True \<and>
   1 \<in> index ` set (info_air_respawns (out_info (fst (projr (step collision_state collision_actions (\<lambda>n. 0)))))) \<and>
   GPacket (Packet 1) \<in> set (info_ground_respawns (out_info (fst (projr (step collision_state collision_actions (\<lambda>n. 0))))))"
proof -
  have ok: "grids_ok collision_state" by code_simp
  have di: "distinct_indices collision_state" by code_simp
  have i1: "is_inside (air collision_state) (3, 1)" by code_simp
  have g1: "getitem (air collision_state) (3, 1) = Some \<lparr>index = 1, packet = Some (Packet 1)\<rparr>" by code_simp
  have i2: "is_inside (air collision_state) (3, 3)" by code_simp
  have g2: "getitem (air collision_state) (3, 3) = Some \<lparr>index = 2, packet = None\<rparr>" by code_simp
  have ne: "((3, 1) :: int \<times> int) \<noteq> (3, 3)" by simp
  have n1: "new_position collision_actions \<lparr>index = 1, packet = Some (Packet 1)\<rparr> (3, 1) = Inr (3, 2)" by code_simp
  have n2: "new_position collision_actions \<lparr>index = 2, packet = None\<rparr> (3, 3) = Inr (3, 2)" by code_simp
  have iq: "is_inside (air collision_state) (3, 2)" by code_simp
  have st: "\<not> isl (step collision_state collision_actions (\<lambda>n. 0))" by code_simp
  show ?thesis
    using ok di i1 g1 i2 g2 n1 n2 iq st
      colliding_drones_crash [OF ok di i1 g1 i2 g2 ne n1 n2 iq Inr_projr [OF st]]
    by (simp add: packets_of_def List.map_filter_simps)
qed

text \<open>
  C3 as stated fails. A drone without a packet lands alone on Packet 1 and takes it, but its
  reward stays 0 and nothing is scheduled for respawn; no Packet is left on the ground. And
  the ground cell of a pickup need not be empty in the state the step returns: when another
  drone crashes in the same step, the ground respawn draws from the empty ground cells, the
  cell of the pickup among them, and here it puts the lost packet 2 on that very cell.
\<close>

theorem pickup_reward_counterexample:
  "getitem (air pickup_state) (3, 3) = Some \<lparr>index = 1, packet = None\<rparr> \<and>
   getitem (ground pickup_state) (3, 4) = Some (GPacket (Packet 1)) \<and>
   \<not> isl (step pickup_state fly_right (\<lambda>n. 0)) \<and>
   getitem (air (grids (fst (projr (step pickup_state fly_right (\<lambda>n. 0)))))) (3, 4)
     = Some \<lparr>index = 1, packet = Some (Packet 1)\<rparr> \<and>
   out_rewards (fst (projr (step pickup_state fly_right (\<lambda>n. 0)))) 1 = Some 0 \<and>
   info_ground_respawns (out_info (fst (projr (step pickup_state fly_right (\<lambda>n. 0))))) = [] \<and>
   get_objects (ground (grids (fst (projr (step pickup_state fly_right (\<lambda>n. 0))))))
     = [(GDropzone (Dropzone 1), (1, 1))] \<and>
   getitem (air refill_state) (0, 0) = Some \<lparr>index = 1, packet = None\<rparr> \<and>
   getitem (ground refill_state) (0, 1) = Some (GPacket (Packet 1)) \<and>
   \<not> isl (step refill_state both_fly_right (\<lambda>n. 0)) \<and>
   getitem (air (grids (fst (projr (step refill_state both_fly_right (\<lambda>n. 0)))))) (0, 1)
     = Some \<lparr>index = 1, packet = Some (Packet 1)\<rparr> \<and>
   getitem (ground (grids (fst (projr (step refill_state both_fly_right (\<lambda>n. 0)))))) (0, 1)
     = Some (GPacket (Packet 2))"
  by (intro conjI; code_simp)

text \<open>
  C3, amended. A surviving drone that is not carrying and lands alone on a cell holding a
  Packet picks it up: it holds that packet and the ground cell is empty when the respawn
  begins. In the state the step returns, the cell holds nothing or one of the objects that
  the ground respawn of this step has put back. The drone's reward stays the default 0, and
  the pickup schedules no replacement: every Packet scheduled for respawn in the step was
  carried by a drone when the step began.
\<close>

theorem pickup_takes_packet:
  assumes ok: "grids_ok s" and di: "distinct_indices s" and sv: "survives_at s actions d p q"
    and nc: "packet d = None" and pk: "getitem (ground s) q = Some (GPacket pk)"
    and mv: "move_drones s actions = Inr t" and st: "step s actions r = Inr (out, r')"
  shows "getitem (air (grids out)) q = Some (d\<lparr>packet := Some pk\<rparr>) \<and>
         getitem (ground t) q = None \<and>
         (getitem (ground (grids out)) q = None \<or>
          getitem (ground (grids out)) q \<in> Some ` set (info_ground_respawns (out_info out))) \<and>
         out_rewards out (index d) = map_option (\<lambda>_. 0) (actions (index d)) \<and>
         (\<forall>x \<in> set (info_ground_respawns (out_info out)).
            case x of
              GPacket lost \<Rightarrow> \<exists>d' p'. (d', p') \<in> set (get_objects (air s)) \<and> packet d' = Some lost
            | GDropzone z \<Rightarrow> True)"
proof -
  note s = survives_atD [OF sv]
  note sl = survivor_lands [OF ok di mv s(1) s(2) s(3) s(4) s(5)]
  note so = step_outputs [OF ok mv st]
  have ok0: "grids_ok (initial_tick s actions)" using ok by (simp add: grids_ok_def)
  have g: "getitem (ground t) q = None"
    using sl(2) land_at(2) [OF ok0, of q d] s(4) pk nc by simp
  have l: "deliveries (ground s) q d = []" "landed q d s = d\<lparr>packet := Some pk\<rparr>"
    using pk by (simp_all add: deliveries_def landed_def)
  have a: "getitem (air (grids out)) q = Some (landed q d s)" using so(4) [OF s(4) sl(1)] .
  have "case x of
          GPacket lost \<Rightarrow> \<exists>d' p'. (d', p') \<in> set (get_objects (air s)) \<and> packet d' = Some lost
        | GDropzone z \<Rightarrow> True" if x: "x \<in> set (info_ground_respawns (out_info out))" for x
  proof (cases x)
    case (GPacket lost)
    then show ?thesis using x scheduled_packets_carried [OF ok mv, of lost] by (simp add: so(2))
  next
    case (GDropzone z)
    then show ?thesis by simp
  qed
  moreover note returned_ground_cell [OF ok mv st s(4) sl(1) g]
  ultimately show ?thesis using a g sl(3) l by (simp add: so(1))
qed

text \<open>The theorem at the pickup of the counterexample.\<close>

theorem pickup_takes_packet_witness:
  "grids_ok pickup_state \<and> distinct_indices pickup_state \<and>
   survives_at pickup_state fly_right \<lparr>index = 1, packet = None\<rparr> (3, 3) (3, 4) \<and>
   getitem (ground pickup_state) (3, 4) = Some (GPacket (Packet 1)) \<and>
   \<not> isl (move_drones pickup_state fly_right) \<and>
   \<not> isl (step pickup_state fly_right (\<lambda>n. 0)) \<and>
   getitem (air (grids (fst (projr (step pickup_state fly_right (\<lambda>n. 0)))))) (3, 4)
     = Some \<lparr>index = 1, packet = Some (Packet 1)\<rparr> \<and>
   getitem (ground (projr (move_drones pickup_state fly_right))) (3, 4) = None \<and>
   getitem (ground (grids (fst (projr (step pickup_state fly_right (\<lambda>n. 0)))))) (3, 4) = None \<and>
   out_rewards (fst (projr (step pickup_state fly_right (\<lambda>n. 0)))) 1 = Some 0"
proof -
  have ok: "grids_ok pickup_state" by code_simp
  have di: "distinct_indices pickup_state" by code_simp
  have sv: "survives_at pickup_state fly_right \<lparr>index = 1, packet = None\<rparr> (3, 3) (3, 4)"
    by code_simp
  have pk: "getitem (ground pickup_state) (3, 4) = Some (GPacket (Packet 1))" by code_simp
  have mv: "\<not> isl (move_drones pickup_state fly_right)" by code_simp
  have st: "\<not> isl (step pickup_state fly_right (\<lambda>n. 0))" by code_simp
  have cell: "getitem (ground (grids (fst (projr (step pickup_state fly_right (\<lambda>n. 0)))))) (3, 4) = None"
    by code_simp
  show ?thesis
    using ok di sv pk mv st cell
      pickup_takes_packet [OF ok di sv _ pk Inr_projr_single [OF mv] Inr_projr [OF st]]
    by (simp add: fly_right_def)
qed

text \<open>
  C4 as stated fails: a drone carrying packet 1 lands alone on Packet 2; afterwards it
  carries packet 2 and packet 1 lies on the cell.
\<close>

theorem carrying_over_packet_counterexample:
  "getitem (air swap_packets_state) (3, 3) = Some \<lparr>index = 1, packet = Some (Packet 1)\<rparr> \<and>
   getitem (ground swap_packets_state) (3, 4) = Some (GPacket (Packet 2)) \<and>
   \<not> isl (step swap_packets_state fly_right_and_stay (\<lambda>n. 0)) \<and>
   getitem (air (grids (fst (projr (step swap_packets_state fly_right_and_stay (\<lambda>n. 0)))))) (3, 4)
     = Some \<lparr>index = 1, packet = Some (Packet 2)\<rparr> \<and>
   getitem (ground (grids (fst (projr (step swap_packets_state fly_right_and_stay (\<lambda>n. 0)))))) (3, 4)
     = Some (GPacket (Packet 1))"
  by (intro conjI; code_simp)

text \<open>
  C4, amended. A surviving drone that is already carrying and lands alone on a cell holding
  a Packet exchanges packets with the cell: it now carries the Packet that lay there, the
  cell holds the Packet it carried, and its reward stays the default 0. The drone is still
  carrying and the cell still holds a Packet.
\<close>

theorem carrying_drone_swaps_packets:
  assumes ok: "grids_ok s" and di: "distinct_indices s" and sv: "survives_at s actions d p q"
    and c: "packet d = Some mine" and pk: "getitem (ground s) q = Some (GPacket pk)"
    and mv: "move_drones s actions = Inr t" and st: "step s actions r = Inr (out, r')"
  shows "getitem (air (grids out)) q = Some (d\<lparr>packet := Some pk\<rparr>) \<and>
         getitem (ground (grids out)) q = Some (GPacket mine) \<and>
         out_rewards out (index d) = map_option (\<lambda>_. 0) (actions (index d))"
proof -
  note s = survives_atD [OF sv]
  note sl = survivor_lands [OF ok di mv s(1) s(2) s(3) s(4) s(5)]
  note so = step_outputs [OF ok mv st]
  have ok0: "grids_ok (initial_tick s actions)" using ok by (simp add: grids_ok_def)
  have g: "getitem (ground t) q = Some (GPacket mine)"
    using sl(2) land_at(2) [OF ok0, of q d] s(4) pk c by simp
  have l: "deliveries (ground s) q d = []" "landed q d s = d\<lparr>packet := Some pk\<rparr>"
    using pk by (simp_all add: deliveries_def landed_def)
  have a: "getitem (air (grids out)) q = Some (landed q d s)" using so(4) [OF s(4) sl(1)] .
  show ?thesis using a so(5) [OF s(4) sl(1) g] sl(3) l by (simp add: so(1))
qed

text \<open>The theorem at the exchange of the counterexample.\<close>

theorem carrying_drone_swaps_packets_witness:
  "grids_ok swap_packets_state \<and> distinct_indices swap_packets_state \<and>
   survives_at swap_packets_state fly_right_and_stay \<lparr>index = 1, packet = Some (Packet 1)\<rparr> (3, 3) (3, 4) \<and>
   getitem (ground swap_packets_state) (3, 4) = Some (GPacket (Packet 2)) \<and>
   \<not> isl (move_drones swap_packets_state fly_right_and_stay) \<and>
   \<not> isl (step swap_packets_state fly_right_and_stay (\<lambda>n. 0)) \<and>
   getitem (air (grids (fst (projr (step swap_packets_state fly_right_and_stay (\<lambda>n. 0)))))) (3, 4)
     = Some \<lparr>index = 1, packet = Some (Packet 2)\<rparr> \<and>
   getitem (ground (grids (fst (projr (step swap_packets_state fly_right_and_stay (\<lambda>n. 0)))))) (3, 4)
     = Some (GPacket (Packet 1)) \<and>
   out_rewards (fst (projr (step swap_packets_state fly_right_and_stay (\<lambda>n. 0)))) 1 = Some 0"
proof -
  have ok: "grids_ok swap_packets_state" by code_simp
  have di: "distinct_indices swap_packets_state" by code_simp
  have sv: "survives_at swap_packets_state fly_right_and_stay \<lparr>index = 1, packet = Some (Packet 1)\<rparr> (3, 3) (3, 4)"
    by code_simp
  have pk: "getitem (ground swap_packets_state) (3, 4) = Some (GPacket (Packet 2))" by code_simp
  have mv: "\<not> isl (move_drones swap_packets_state fly_right_and_stay)" by code_simp
  have st: "\<not> isl (step swap_packets_state fly_right_and_stay (\<lambda>n. 0))" by code_simp
  show ?thesis
    using ok di sv pk mv st
      carrying_drone_swaps_packets [OF ok di sv _ pk Inr_projr_single [OF mv] Inr_projr [OF st]]
    by (simp add: fly_right_and_stay_def)
qed







text \<open>
  C7. A drone that the respawn puts on a cell holding a Packet holds that packet when the
  step returns and the ground cell is empty. The pickup gives no reward: the rewards returned
  are those fixed before the respawn, and the respawned drone keeps the crash reward -1. It
  schedules nothing: the ground respawn list returned is the one fixed before the respawn.
  The cell of the i-th respawned drone is the i-th position drawn by the air spawn, and what
  the cell holds is read after the ground spawn, which runs first.
\<close>

theorem respawned_drone_takes_packet:
  assumes ok: "grids_ok s" and di: "distinct_indices s"
    and mv: "move_drones s actions = Inr t"
    and sg: "spawn (ground t) (ground_respawns t) r = Inr (g', gps, r1)"
    and sa: "spawn (air t) (air_respawns t) r1 = Inr (a', ps, r2)"
    and i: "i < length ps" and pk: "getitem g' (ps ! i) = Some (GPacket pk)"
  shows "\<exists>out. step s actions r = Inr (out, r2) \<and>
           getitem (air (grids out)) (ps ! i) = Some ((air_respawns t ! i)\<lparr>packet := Some pk\<rparr>) \<and>
           getitem (ground (grids out)) (ps ! i) = None \<and>
           out_rewards out = rewards t \<and>
           out_rewards out (index (air_respawns t ! i)) = Some (- 1) \<and>
           info_ground_respawns (out_info out) = ground_respawns t"
proof -
  note mp = move_drones_packets [OF ok mv]
  have rok: "respawned_ok ps \<lparr>air = a', ground = g'\<rparr>"
    using mp(3) mp(2) sg sa by (rule respawned_ok_after_spawn)
  from pick_loop [of "\<lambda>d. 0::nat", OF _ rok]
  obtain s' where pl: "pick_packets_after_respawn ps \<lparr>air = a', ground = g'\<rparr> = Inr s'" by auto
  define out where "out = fst (projr (step s actions r))"
  have st: "step s actions r = Inr (out, r2)"
    unfolding out_def by (simp add: step_def respawn_def mv sg sa pl)
  then have rs: "respawn t actions r = Inr (out, r2)" using mv by (simp add: step_def)
  from mp(3) mp(2) rs obtain g'' gps' r1' a'' ps' where
    sg': "spawn (ground t) (ground_respawns t) r = Inr (g'', gps', r1')" and
    sa': "spawn (air t) (air_respawns t) r1' = Inr (a'', ps', r2)" and
    c2: "\<forall>i < length ps'.
        getitem (air (grids out)) (ps' ! i) = Some (after_pick (getitem g'' (ps' ! i)) (air_respawns t ! i)) \<and>
        getitem (ground (grids out)) (ps' ! i) = ground_after_pick (getitem g'' (ps' ! i))" and
    len: "length ps' = length (air_respawns t)"
    by (rule respawn_effect)
  have eq: "g'' = g'" "ps' = ps" using sg sg' sa sa' by simp_all
  note so = step_outputs [OF ok mv st]
  have mem: "air_respawns t ! i \<in> set (air_respawns t)" using i len eq by simp
  have rw: "rewards t (index (air_respawns t ! i)) = Some (- 1)"
    using ok di mv mem by (rule respawned_reward)
  have "getitem (air (grids out)) (ps ! i) = Some ((air_respawns t ! i)\<lparr>packet := Some pk\<rparr>)"
       "getitem (ground (grids out)) (ps ! i) = None"
    using c2 [rule_format, of i] i pk eq by (simp_all add: after_pick_def ground_after_pick_def)
  then show ?thesis using st rw by (simp add: so(1) so(2))
qed

text \<open>
  The theorem at the head-on collision: the lost packet 1 respawns at (0, 1), drone 1
  respawns on the same cell and takes it.
\<close>

theorem respawned_drone_takes_packet_witness:
  "grids_ok collision_state \<and> distinct_indices collision_state \<and>
   \<not> isl (move_drones collision_state collision_actions) \<and>
   \<not> isl (spawn (ground collision_tick) (ground_respawns collision_tick) (\<lambda>n. 0)) \<and>
   \<not> isl (spawn (air collision_tick) (air_respawns collision_tick) (snd (snd collision_ground_spawn))) \<and>
   fst (snd collision_air_spawn) = [(0, 1), (0, 2)] \<and>
   air_respawns collision_tick = [\<lparr>index = 1, packet = None\<rparr>, \<lparr>index = 2, packet = None\<rparr>] \<and>
   ground_respawns collision_tick = [GPacket (Packet 1)] \<and>
   getitem (fst collision_ground_spawn) (0, 1) = Some (GPacket (Packet 1)) \<and>
   \<not> isl (step collision_state collision_actions (\<lambda>n. 0)) \<and>
   getitem (air (grids (fst (projr (step collision_state collision_actions (\<lambda>n. 0)))))) (0, 1)
     = Some \<lparr>index = 1, packet = Some (Packet 1)\<rparr> \<and>
   getitem (ground (grids (fst (projr (step collision_state collision_actions (\<lambda>n. 0)))))) (0, 1) = None \<and>
   out_rewards (fst (projr (step collision_state collision_actions (\<lambda>n. 0)))) 1 = Some (- 1) \<and>
   info_ground_respawns (out_info (fst (projr (step collision_state collision_actions (\<lambda>n. 0)))))
     = [GPacket (Packet 1)]"
proof -
  have ok: "grids_ok collision_state" by code_simp
  have di: "distinct_indices collision_state" by code_simp
  have mv: "\<not> isl (move_drones collision_state collision_actions)" by code_simp
  have sg: "\<not> isl (spawn (ground collision_tick) (ground_respawns collision_tick) (\<lambda>n. 0))" by code_simp
  have sa: "\<not> isl (spawn (air collision_tick) (air_respawns collision_tick) (snd (snd collision_ground_spawn)))"
    by code_simp
  have ps: "fst (snd collision_air_spawn) = [(0, 1), (0, 2)]" by code_simp
  have ar: "air_respawns collision_tick = [\<lparr>index = 1, packet = None\<rparr>, \<lparr>index = 2, packet = None\<rparr>]"
    by code_simp
  have gr: "ground_respawns collision_tick = [GPacket (Packet 1)]" by code_simp
  have pk: "getitem (fst collision_ground_spawn) (0, 1) = Some (GPacket (Packet 1))" by code_simp
  have i: "0 < length (fst (snd collision_air_spawn))" using ps by simp
  have pk': "getitem (fst collision_ground_spawn) (fst (snd collision_air_spawn) ! 0) = Some (GPacket (Packet 1))"
    using pk ps by simp
  from respawned_drone_takes_packet [OF ok di
      Inr_projr_single [OF mv, folded collision_tick_def]
      Inr_projr_triple [OF sg, folded collision_ground_spawn_def]
      Inr_projr_triple [OF sa, folded collision_air_spawn_def] i pk']
  show ?thesis
    using ok di mv sg sa pk by (auto simp: ps ar gr)
qed




text \<open>
  C9. After a step that returns, on a state in which each drone index in \<open>[1, D]\<close> occupies
  exactly one air cell and every other air cell is empty, the same holds again.
\<close>

theorem step_keeps_one_cell_each:
  assumes ok: "grids_ok s" and inv: "one_cell_each D s" and st: "step s actions r = Inr (out, r')"
  shows "one_cell_each D (grids out)"
proof -
  have "count_air (grids out) i = count_air s i" for i
    unfolding count_air_total by (rule step_index_total [OF ok st]) simp
  moreover have "occupied (grids out) = occupied s"
    unfolding occupied_total by (rule step_index_total [OF ok st]) simp
  ultimately show ?thesis using inv by (simp add: one_cell_each_def)
qed

theorem step_keeps_one_cell_each_witness:
  "grids_ok collision_state \<and> one_cell_each 2 collision_state \<and>
   \<not> isl (step collision_state collision_actions (\<lambda>n. 0)) \<and>
   one_cell_each 2 (grids (fst (projr (step collision_state collision_actions (\<lambda>n. 0)))))"
proof -
  have ok: "grids_ok collision_state" by code_simp
  have inv: "one_cell_each 2 collision_state" by code_simp
  have ret: "\<not> isl (step collision_state collision_actions (\<lambda>n. 0))" by code_simp
  show ?thesis
    using ok inv ret step_keeps_one_cell_each [OF ok inv Inr_projr [OF ret]] by simp
qed

text \<open>
  C10. Every step that returns preserves the number of packages in the world: the number of
  Packet objects on the ground plus the number of packages carried by drones is the same
  after \<^verbatim>\<open>step\<close> as before it.
\<close>

theorem step_keeps_packets:
  assumes ok: "grids_ok s" and st: "step s actions r = Inr (out, r')"
  shows "count_packets (grids out) = count_packets s"
proof -
  from st obtain t where mv: "move_drones s actions = Inr t" and rs: "respawn t actions r = Inr (out, r')"
    by (rule step_split)
  note mp = move_drones_packets [OF ok mv]
  from rs obtain g' gps r1 a' ps where
    sg: "spawn (ground t) (ground_respawns t) r = Inr (g', gps, r1)" and
    sa: "spawn (air t) (air_respawns t) r1 = Inr (a', ps, r')" and
    pk: "pick_packets_after_respawn ps \<lparr>air = a', ground = g'\<rparr> = Inr (grids out)"
    by (rule respawn_split)
  note rok = respawned_ok_after_spawn [OF mp(3) mp(2) sg sa]
  have wa: "wf_grid (air t)" and wg: "wf_grid (ground t)" using mp(3) by (simp_all add: grids_ok_def)
  have z: "(\<Sum>d\<leftarrow>air_respawns t. carried d) = 0"
    using mp(2) by (induction "air_respawns t") (simp_all add: carried_def sum_list_eq_0_iff)
  from pick_loop [of "\<lambda>d. 0::nat" ps "\<lparr>air = a', ground = g'\<rparr>", OF _ rok] pk
  have "total on_ground (ground (grids out)) + total carried (air (grids out))
      = total on_ground g' + total carried a'" by auto
  also have "\<dots> = total on_ground (ground t) + (\<Sum>x\<leftarrow>ground_respawns t. on_ground x)
      + (total carried (air t) + (\<Sum>d\<leftarrow>air_respawns t. carried d))"
    by (simp only: total_spawn [OF wg sg] total_spawn [OF wa sa])
  also have "\<dots> = total on_ground (ground s) + total carried (air s)"
    unfolding z using mp(1) by simp
  finally show ?thesis by (simp add: count_packets_total)
qed

theorem step_keeps_packets_witness:
  "grids_ok collision_state \<and>
   \<not> isl (step collision_state collision_actions (\<lambda>n. 0)) \<and>
   count_packets collision_state = 2 \<and>
   count_packets (grids (fst (projr (step collision_state collision_actions (\<lambda>n. 0))))) = 2"
proof -
  have ok: "grids_ok collision_state" by code_simp
  have ret: "\<not> isl (step collision_state collision_actions (\<lambda>n. 0))" by code_simp
  have two: "count_packets collision_state = 2" by code_simp
  show ?thesis
    using ok ret two step_keeps_packets [OF ok Inr_projr [OF ret]] by simp
qed

end
